theory Spec2Isabelle
  imports Complex_Main "HOL-Library.Word"
begin

section \<open>Arithmetic model\<close>

text \<open>
  The renderer in \<^verbatim>\<open>lol.cpp\<close> computes in C++ \<^verbatim>\<open>float\<close>. Two readings of its arithmetic
  are used.

  The first reads every \<^verbatim>\<open>float\<close> as a real number and every floating-point operation
  as the exact operation on reals (\<open>sin\<close>, \<open>sqrt\<close>, \<open>floor\<close>, \<open>tan\<close> of the library). It
  carries the algorithmic structure of the program (control flow, loop bounds, buffer
  layout, the shape of the noise), which is what the specification describes
  (\<open>not bit-for-bit in float value, but in algorithmic structure\<close>).

  The second reads \<^verbatim>\<open>float\<close> as IEEE-754 binary32 and \<^verbatim>\<open>double\<close> as binary64, every
  operation being rounded to the format of its C++ type. Its functions carry the suffix
  \<open>_f32\<close>; it is the model of the statements that depend on the values computed:
  idempotence of the normalisation, the ranges of the noise, the place of a hit.

  The integer parameters \<^verbatim>\<open>int width\<close>, \<^verbatim>\<open>int height\<close> and the \<^verbatim>\<open>size_t\<close> loop counters
  are modelled with their machine ranges written out.
\<close>

section \<open>Vector algebra (\<^verbatim>\<open>Vec3f\<close>)\<close>

record vec3f =
  vx :: real
  vy :: real
  vz :: real

definition make_vec3f :: "real \<Rightarrow> real \<Rightarrow> real \<Rightarrow> vec3f" where
  "make_vec3f a b c = \<lparr>vx = a, vy = b, vz = c\<rparr>"

definition vec3f_dot :: "vec3f \<Rightarrow> vec3f \<Rightarrow> real" where
  "vec3f_dot a b = vx a * vx b + vy a * vy b + vz a * vz b"

definition vec3f_add :: "vec3f \<Rightarrow> vec3f \<Rightarrow> vec3f" where
  "vec3f_add a b = \<lparr>vx = vx a + vx b, vy = vy a + vy b, vz = vz a + vz b\<rparr>"

definition vec3f_sub :: "vec3f \<Rightarrow> vec3f \<Rightarrow> vec3f" where
  "vec3f_sub a b = \<lparr>vx = vx a - vx b, vy = vy a - vy b, vz = vz a - vz b\<rparr>"

definition vec3f_scale :: "vec3f \<Rightarrow> real \<Rightarrow> vec3f" where
  "vec3f_scale v scalar = \<lparr>vx = vx v * scalar, vy = vy v * scalar, vz = vz v * scalar\<rparr>"

definition vec3f_norm :: "vec3f \<Rightarrow> real" where
  "vec3f_norm v = sqrt (vx v * vx v + vy v * vy v + vz v * vz v)"

definition vec3f_normalize :: "vec3f \<Rightarrow> vec3f" where
  "vec3f_normalize v =
     (let n = vec3f_norm v
      in if n > 0 then make_vec3f (vx v / n) (vy v / n) (vz v / n) else make_vec3f 0 0 0)"

section \<open>Noise primitive\<close>

definition sphere_radius :: real where
  "sphere_radius = 1.5"

definition noise_amplitude :: real where
  "noise_amplitude = 1.0"

definition lerp :: "real \<Rightarrow> real \<Rightarrow> real \<Rightarrow> real" where
  "lerp v0 v1 t = v0 + (v1 - v0) * max 0 (min 1 t)"

definition hash :: "real \<Rightarrow> real" where
  "hash n = sin n * 43758.5453 - of_int \<lfloor>sin n * 43758.5453\<rfloor>"

definition noise :: "vec3f \<Rightarrow> real" where
  "noise x =
     (let p = \<lparr>vx = of_int \<lfloor>vx x\<rfloor>, vy = of_int \<lfloor>vy x\<rfloor>, vz = of_int \<lfloor>vz x\<rfloor>\<rparr>;
          f = \<lparr>vx = vx x - vx p, vy = vy x - vy p, vz = vz x - vz p\<rparr>;
          f = vec3f_scale f (vec3f_dot f (vec3f_sub \<lparr>vx = 3, vy = 3, vz = 3\<rparr> (vec3f_scale f 2)));
          n = vec3f_dot p \<lparr>vx = 1, vy = 57, vz = 113\<rparr>
      in lerp
           (lerp (lerp (hash (n + 0)) (hash (n + 1)) (vx f))
                 (lerp (hash (n + 57)) (hash (n + 58)) (vx f)) (vy f))
           (lerp (lerp (hash (n + 113)) (hash (n + 114)) (vx f))
                 (lerp (hash (n + 170)) (hash (n + 171)) (vx f)) (vy f))
           (vz f))"

section \<open>Fractal noise and the distance field\<close>

definition rotate_vec3f :: "vec3f \<Rightarrow> vec3f" where
  "rotate_vec3f v =
     \<lparr>vx = vec3f_dot \<lparr>vx = 0.00, vy = 0.80, vz = 0.60\<rparr> v,
      vy = vec3f_dot \<lparr>vx = -0.80, vy = 0.36, vz = -0.48\<rparr> v,
      vz = vec3f_dot \<lparr>vx = -0.60, vy = -0.48, vz = 0.64\<rparr> v\<rparr>"

definition fractal_brownian_motion :: "vec3f \<Rightarrow> real" where
  "fractal_brownian_motion x =
     (let p = rotate_vec3f x;
          f = 0;
          f = f + 0.5000 * noise p; p = vec3f_scale p 2.32;
          f = f + 0.2500 * noise p; p = vec3f_scale p 3.03;
          f = f + 0.1250 * noise p; p = vec3f_scale p 2.61;
          f = f + 0.0625 * noise p
      in f / 0.9375)"

definition signed_distance :: "vec3f \<Rightarrow> real" where
  "signed_distance p =
     (let displacement = - fractal_brownian_motion (vec3f_scale p 3.4) * noise_amplitude
      in vec3f_norm p - (sphere_radius + displacement))"

definition distance_field_normal :: "vec3f \<Rightarrow> vec3f" where
  "distance_field_normal pos =
     (let eps = 0.1;
          d = signed_distance pos;
          nx = signed_distance (vec3f_add pos \<lparr>vx = eps, vy = 0, vz = 0\<rparr>) - d;
          ny = signed_distance (vec3f_add pos \<lparr>vx = 0, vy = eps, vz = 0\<rparr>) - d;
          nz = signed_distance (vec3f_add pos \<lparr>vx = 0, vy = 0, vz = eps\<rparr>) - d
      in vec3f_normalize \<lparr>vx = nx, vy = ny, vz = nz\<rparr>)"

section \<open>Ray marcher\<close>

function sphere_trace_loop :: "nat \<Rightarrow> vec3f \<Rightarrow> vec3f \<Rightarrow> vec3f option" where
  "sphere_trace_loop i pos dir =
     (if i < 128 then
        (let d = signed_distance pos
         in if d < 0 then Some pos
            else sphere_trace_loop (i + 1)
                   (vec3f_add pos (vec3f_scale dir (max (d * 0.1) 0.01))) dir)
      else None)"
  by pat_completeness auto
termination
  by (relation "measure (\<lambda>(i, pos, dir). 128 - i)") auto

declare sphere_trace_loop.simps [simp del]

definition sphere_trace :: "vec3f \<Rightarrow> vec3f \<Rightarrow> vec3f option" where
  "sphere_trace orig dir = sphere_trace_loop 0 orig dir"

text \<open>
  The positions the marcher visits when no hit ends the walk early: \<open>march_pos orig dir k\<close>
  is the value of \<^verbatim>\<open>pos\<close> at the start of iteration \<open>k\<close> of the loop.
\<close>

primrec march_pos :: "vec3f \<Rightarrow> vec3f \<Rightarrow> nat \<Rightarrow> vec3f" where
  "march_pos orig dir 0 = orig"
| "march_pos orig dir (Suc k) =
     (let pos = march_pos orig dir k;
          d = signed_distance pos
      in vec3f_add pos (vec3f_scale dir (max (d * 0.1) 0.01)))"

section \<open>Machine integers, vectors and failures\<close>

text \<open>
  \<^verbatim>\<open>int\<close> is 32 bits wide and \<^verbatim>\<open>size_t\<close> 64 bits. A signed product that leaves the
  \<^verbatim>\<open>int\<close> range is undefined behaviour; converting an \<^verbatim>\<open>int\<close> to \<^verbatim>\<open>size_t\<close> reduces it
  modulo \<open>2 ^ 64\<close>, and \<^verbatim>\<open>size_t\<close> arithmetic wraps. The constructor
  \<^verbatim>\<open>std::vector<T>(n)\<close> throws \<^verbatim>\<open>std::length_error\<close> when the converted count exceeds
  \<^verbatim>\<open>max_size()\<close>, which is the case for every negative \<^verbatim>\<open>int\<close>; an index outside the
  vector is undefined behaviour for \<^verbatim>\<open>operator[]\<close>. Each of these is a failure value of
  the model.
\<close>

datatype failure = Signed_Overflow | Length_Error | Out_Of_Bounds

definition in_int_range :: "int \<Rightarrow> bool" where
  "in_int_range k \<longleftrightarrow> - (2 ^ 31) \<le> k \<and> k < 2 ^ 31"

definition size_t_of :: "int \<Rightarrow> nat" where
  "size_t_of k = nat (k mod 2 ^ 64)"

definition size_t_wrap :: "nat \<Rightarrow> nat" where
  "size_t_wrap n = n mod 2 ^ 64"

definition vector_alloc :: "int \<Rightarrow> 'a \<Rightarrow> failure + 'a list" where
  "vector_alloc n init =
     (if n < 0 then Inl Length_Error else Inr (replicate (nat n) init))"

definition vector_get :: "'a list \<Rightarrow> nat \<Rightarrow> failure + 'a" where
  "vector_get v k = (if k < length v then Inr (v ! k) else Inl Out_Of_Bounds)"

definition vector_set :: "'a list \<Rightarrow> nat \<Rightarrow> 'a \<Rightarrow> failure + 'a list" where
  "vector_set v k a = (if k < length v then Inr (v[k := a]) else Inl Out_Of_Bounds)"

section \<open>Frame renderer\<close>

text \<open>
  The body of the pixel loop of \<^verbatim>\<open>render_framebuffer\<close>: the colour stored at \<open>(i, j)\<close>.
  Where \<open>tan (fov / 2) = 0\<close> the program divides by zero and continues with an infinity;
  the model continues with \<open>0\<close>. No failure arises in either.
\<close>

definition render_pixel :: "int \<Rightarrow> int \<Rightarrow> real \<Rightarrow> nat \<Rightarrow> nat \<Rightarrow> vec3f" where
  "render_pixel width height fov j i =
     (let dir_x = (real i + 0.5) - real_of_int width / 2.0;
          dir_y = - (real j + 0.5) + real_of_int height / 2.0;
          dir_z = - real_of_int height / (2.0 * tan (fov / 2.0));
          dir = vec3f_normalize \<lparr>vx = dir_x, vy = dir_y, vz = dir_z\<rparr>
      in case sphere_trace \<lparr>vx = 0, vy = 0, vz = 3\<rparr> dir of
           Some hit \<Rightarrow>
             (let light_dir = vec3f_normalize (vec3f_sub \<lparr>vx = 0, vy = 10, vz = 10\<rparr> hit);
                  light_intensity = max 0.4 (vec3f_dot light_dir (distance_field_normal hit))
              in vec3f_scale \<lparr>vx = 1, vy = 1, vz = 1\<rparr> light_intensity)
         | None \<Rightarrow> \<lparr>vx = 0.3, vy = 0.9, vz = 0.2\<rparr>)"

function render_inner ::
  "int \<Rightarrow> int \<Rightarrow> real \<Rightarrow> nat \<Rightarrow> nat \<Rightarrow> vec3f list \<Rightarrow> failure + vec3f list" where
  "render_inner width height fov j i framebuffer =
     (if i < size_t_of width then
        (case vector_set framebuffer (size_t_wrap (i + j * size_t_of width))
                (render_pixel width height fov j i) of
           Inl e \<Rightarrow> Inl e
         | Inr framebuffer' \<Rightarrow> render_inner width height fov j (i + 1) framebuffer')
      else Inr framebuffer)"
  by pat_completeness auto
termination
  by (relation "measure (\<lambda>(width, height, fov, j, i, framebuffer). size_t_of width - i)") auto

declare render_inner.simps [simp del]

function render_outer ::
  "int \<Rightarrow> int \<Rightarrow> real \<Rightarrow> nat \<Rightarrow> vec3f list \<Rightarrow> failure + vec3f list" where
  "render_outer width height fov j framebuffer =
     (if j < size_t_of height then
        (case render_inner width height fov j 0 framebuffer of
           Inl e \<Rightarrow> Inl e
         | Inr framebuffer' \<Rightarrow> render_outer width height fov (j + 1) framebuffer')
      else Inr framebuffer)"
  by pat_completeness auto
termination
  by (relation "measure (\<lambda>(width, height, fov, j, framebuffer). size_t_of height - j)") auto

declare render_outer.simps [simp del]

definition render_framebuffer :: "int \<Rightarrow> int \<Rightarrow> real \<Rightarrow> failure + vec3f list" where
  "render_framebuffer width height fov =
     (if \<not> in_int_range (width * height) then Inl Signed_Overflow
      else case vector_alloc (width * height) \<lparr>vx = 0, vy = 0, vz = 0\<rparr> of
             Inl e \<Rightarrow> Inl e
           | Inr framebuffer \<Rightarrow> render_outer width height fov 0 framebuffer)"

text \<open>
  \<^verbatim>\<open>#pragma omp parallel for\<close> hands the rows of the image to a team of threads, so the
  pixel bodies run in an order the program does not fix. A schedule is the order in
  which the pixel bodies take effect; \<open>omp_iteration_space\<close> is the row-major order of
  the sequential loops, and every run of the parallel loop is a rearrangement of it.
\<close>

fun run_schedule ::
  "int \<Rightarrow> int \<Rightarrow> real \<Rightarrow> (nat \<times> nat) list \<Rightarrow> vec3f list \<Rightarrow> failure + vec3f list" where
  "run_schedule width height fov [] framebuffer = Inr framebuffer"
| "run_schedule width height fov ((j, i) # rest) framebuffer =
     (case vector_set framebuffer (size_t_wrap (i + j * size_t_of width))
             (render_pixel width height fov j i) of
        Inl e \<Rightarrow> Inl e
      | Inr framebuffer' \<Rightarrow> run_schedule width height fov rest framebuffer')"

definition omp_iteration_space :: "int \<Rightarrow> int \<Rightarrow> (nat \<times> nat) list" where
  "omp_iteration_space width height =
     concat (map (\<lambda>j. map (\<lambda>i. (j, i)) [0 ..< size_t_of width]) [0 ..< size_t_of height])"

definition render_framebuffer_omp ::
  "(nat \<times> nat) list \<Rightarrow> int \<Rightarrow> int \<Rightarrow> real \<Rightarrow> failure + vec3f list" where
  "render_framebuffer_omp schedule width height fov =
     (if \<not> in_int_range (width * height) then Inl Signed_Overflow
      else case vector_alloc (width * height) \<lparr>vx = 0, vy = 0, vz = 0\<rparr> of
             Inl e \<Rightarrow> Inl e
           | Inr framebuffer \<Rightarrow> run_schedule width height fov schedule framebuffer)"

section \<open>Pixel encoder\<close>

text \<open>
  \<^verbatim>\<open>static_cast<uint8_t>\<close> of a \<^verbatim>\<open>float\<close> truncates toward zero; its argument here is
  clamped to \<open>[0, 255]\<close> first, where truncation is \<open>floor\<close>.
\<close>

definition to_uint8 :: "real \<Rightarrow> 8 word" where
  "to_uint8 r = word_of_int \<lfloor>r\<rfloor>"

function convert_inner ::
  "vec3f list \<Rightarrow> int \<Rightarrow> int \<Rightarrow> nat \<Rightarrow> nat \<Rightarrow> 8 word list \<Rightarrow> failure + 8 word list" where
  "convert_inner framebuffer width height j i pixels =
     (if i < size_t_of width then
        (case vector_get framebuffer (size_t_wrap (i + j * size_t_of width)) of
           Inl e \<Rightarrow> Inl e
         | Inr color \<Rightarrow>
             (let r = to_uint8 (max 0 (min 255 (vx color * 255)));
                  g = to_uint8 (max 0 (min 255 (vy color * 255)));
                  b = to_uint8 (max 0 (min 255 (vz color * 255)));
                  pixelIndex = size_t_wrap ((j * size_t_of width + i) * 3)
              in case vector_set pixels pixelIndex r of
                   Inl e \<Rightarrow> Inl e
                 | Inr pixels1 \<Rightarrow>
                     (case vector_set pixels1 (size_t_wrap (pixelIndex + 1)) g of
                        Inl e \<Rightarrow> Inl e
                      | Inr pixels2 \<Rightarrow>
                          (case vector_set pixels2 (size_t_wrap (pixelIndex + 2)) b of
                             Inl e \<Rightarrow> Inl e
                           | Inr pixels3 \<Rightarrow>
                               convert_inner framebuffer width height j (i + 1) pixels3))))
      else Inr pixels)"
  by pat_completeness auto
termination
  by (relation "measure (\<lambda>(framebuffer, width, height, j, i, pixels). size_t_of width - i)") auto

declare convert_inner.simps [simp del]

function convert_outer ::
  "vec3f list \<Rightarrow> int \<Rightarrow> int \<Rightarrow> nat \<Rightarrow> 8 word list \<Rightarrow> failure + 8 word list" where
  "convert_outer framebuffer width height j pixels =
     (if j < size_t_of height then
        (case convert_inner framebuffer width height j 0 pixels of
           Inl e \<Rightarrow> Inl e
         | Inr pixels' \<Rightarrow> convert_outer framebuffer width height (j + 1) pixels')
      else Inr pixels)"
  by pat_completeness auto
termination
  by (relation "measure (\<lambda>(framebuffer, width, height, j, pixels). size_t_of height - j)") auto

declare convert_outer.simps [simp del]

definition convert_framebuffer_to_pixels ::
  "vec3f list \<Rightarrow> int \<Rightarrow> int \<Rightarrow> failure + 8 word list" where
  "convert_framebuffer_to_pixels framebuffer width height =
     (if \<not> in_int_range (width * height) \<or> \<not> in_int_range (width * height * 3)
      then Inl Signed_Overflow
      else case vector_alloc (width * height * 3) 0 of
             Inl e \<Rightarrow> Inl e
           | Inr pixels \<Rightarrow> convert_outer framebuffer width height 0 pixels)"

text \<open>The two calls of \<^verbatim>\<open>main\<close>: render, then encode.\<close>

definition render_pixels :: "int \<Rightarrow> int \<Rightarrow> real \<Rightarrow> failure + 8 word list" where
  "render_pixels width height fov =
     (case render_framebuffer width height fov of
        Inl e \<Rightarrow> Inl e
      | Inr framebuffer \<Rightarrow> convert_framebuffer_to_pixels framebuffer width height)"

definition render_pixels_omp ::
  "(nat \<times> nat) list \<Rightarrow> int \<Rightarrow> int \<Rightarrow> real \<Rightarrow> failure + 8 word list" where
  "render_pixels_omp schedule width height fov =
     (case render_framebuffer_omp schedule width height fov of
        Inl e \<Rightarrow> Inl e
      | Inr framebuffer \<Rightarrow> convert_framebuffer_to_pixels framebuffer width height)"

section \<open>The specification's reading of the noise and of the encoding\<close>

text \<open>
  The specification's words for \<^verbatim>\<open>noise\<close>: lattice cell \<open>p = floor x\<close>, offset
  \<open>f = x - p\<close>, one shared weight \<open>w = dot f ((3,3,3) - 2 f)\<close> scaling all three axes,
  lattice index \<open>n = dot p (1, 57, 113)\<close>, and the trilinear blend of the hash at the
  eight corner offsets, each blend parameter clamped to \<open>[0, 1]\<close>.
\<close>

definition clamp01 :: "real \<Rightarrow> real" where
  "clamp01 t = max 0 (min 1 t)"

definition noise_spec :: "vec3f \<Rightarrow> real" where
  "noise_spec x =
     (let px = of_int \<lfloor>vx x\<rfloor>; py = of_int \<lfloor>vy x\<rfloor>; pz = of_int \<lfloor>vz x\<rfloor>;
          fx = vx x - px; fy = vy x - py; fz = vz x - pz;
          w = fx * (3 - 2 * fx) + fy * (3 - 2 * fy) + fz * (3 - 2 * fz);
          tx = clamp01 (fx * w); ty = clamp01 (fy * w); tz = clamp01 (fz * w);
          n = px * 1 + py * 57 + pz * 113
      in (1 - tx) * (1 - ty) * (1 - tz) * hash (n + 0)
         + tx * (1 - ty) * (1 - tz) * hash (n + 1)
         + (1 - tx) * ty * (1 - tz) * hash (n + 57)
         + tx * ty * (1 - tz) * hash (n + 58)
         + (1 - tx) * (1 - ty) * tz * hash (n + 113)
         + tx * (1 - ty) * tz * hash (n + 114)
         + (1 - tx) * ty * tz * hash (n + 170)
         + tx * ty * tz * hash (n + 171))"

text \<open>
  The specification's words for the encoder: every colour becomes its three bytes
  (scale by 255, clamp to \<open>[0, 255]\<close>, truncate), and the bytes of the pixels follow each
  other in framebuffer order.
\<close>

definition encode_channel :: "real \<Rightarrow> 8 word" where
  "encode_channel c = word_of_int \<lfloor>max 0 (min 255 (c * 255))\<rfloor>"

definition encode_pixels :: "vec3f list \<Rightarrow> 8 word list" where
  "encode_pixels colors =
     concat (map (\<lambda>c. [encode_channel (vx c), encode_channel (vy c), encode_channel (vz c)]) colors)"

section \<open>Binary floating-point arithmetic\<close>

text \<open>
  A finite floating-point number is a real number, and an operation of the program is
  the exact operation on reals followed by rounding to nearest, ties to even.
  \<open>fl_round p emin\<close> rounds to the format of precision \<open>p\<close> and least exponent \<open>emin\<close>:
  the exponent of \<open>x\<close> is \<open>\<lfloor>log\<^sub>2 \<bar>x\<bar>\<rfloor>\<close>, but not less than \<open>emin\<close> (below \<open>2 ^ emin\<close> the
  numbers of the format are the subnormal ones, equally spaced), the quantum of \<open>x\<close> is
  \<open>2 ^ (exponent - p + 1)\<close>, and \<open>x\<close> goes to the nearest multiple of its quantum, to the
  even one of two nearest. binary32 is \<open>p = 24\<close>, \<open>emin = -126\<close>; binary64 is \<open>p = 53\<close>,
  \<open>emin = -1022\<close>. Overflow to infinity and NaN are not represented: the statements
  about the binary32 program are made for arguments so bounded that no operation
  exceeds the largest finite number.
\<close>


definition rne :: "real \<Rightarrow> int" where
  "rne y =
     (let f = \<lfloor>y\<rfloor>; r = y - of_int f
      in if r < 1 / 2 then f else if 1 / 2 < r then f + 1 else if even f then f else f + 1)"

definition fl_exponent :: "int \<Rightarrow> real \<Rightarrow> int" where
  "fl_exponent emin x = max \<lfloor>log 2 \<bar>x\<bar>\<rfloor> emin"

definition fl_quantum :: "nat \<Rightarrow> int \<Rightarrow> real \<Rightarrow> real" where
  "fl_quantum p emin x = 2 powi (fl_exponent emin x - int p + 1)"

definition fl_round :: "nat \<Rightarrow> int \<Rightarrow> real \<Rightarrow> real" where
  "fl_round p emin x =
     (if x = 0 then 0 else of_int (rne (x / fl_quantum p emin x)) * fl_quantum p emin x)"

definition to_float :: "real \<Rightarrow> real" where
  "to_float x = fl_round 24 (- 126) x"

definition to_double :: "real \<Rightarrow> real" where
  "to_double x = fl_round 53 (- 1022) x"

section \<open>The program in binary32\<close>

text \<open>
  The functions of \<^verbatim>\<open>lol.cpp\<close> once more, with the rounding of every operation written
  out as C++ prescribes it. An arithmetic operator with \<^verbatim>\<open>float\<close> operands is rounded to
  binary32 (expressions are evaluated in the precision of their type, and no product
  and sum are contracted into one fused operation); \<^verbatim>\<open>std::sqrt\<close> of a \<^verbatim>\<open>float\<close> is the
  correctly rounded square root. The unqualified calls \<^verbatim>\<open>sin\<close> and \<^verbatim>\<open>floor\<close> are the
  \<^verbatim>\<open>double\<close> functions of \<^verbatim>\<open><math.h>\<close>: in \<^verbatim>\<open>hash\<close> their \<^verbatim>\<open>float\<close> argument is converted to
  \<^verbatim>\<open>double\<close>, the product with \<^verbatim>\<open>43758.5453f\<close> and the subtraction are \<^verbatim>\<open>double\<close>
  operations, and the result is rounded to \<^verbatim>\<open>float\<close> by the \<^verbatim>\<open>return\<close>. The sine of the
  library is taken to be the correctly rounded one. A literal without suffix is a
  \<^verbatim>\<open>double\<close>; it is rounded to \<^verbatim>\<open>float\<close> where it initialises a \<^verbatim>\<open>float\<close> (the rows of
  \<^verbatim>\<open>rotate\<close>, the scale factors \<^verbatim>\<open>2.32\<close>, \<^verbatim>\<open>3.03\<close>, \<^verbatim>\<open>2.61\<close>, \<^verbatim>\<open>3.4\<close>), while the weights
  \<^verbatim>\<open>0.5000\<close>, ..., \<^verbatim>\<open>0.0625\<close> and the divisor \<^verbatim>\<open>0.9375\<close> of \<^verbatim>\<open>fractal_brownian_motion\<close>
  make \<^verbatim>\<open>f += w * noise(p)\<close> and \<^verbatim>\<open>f / 0.9375\<close> operations on \<^verbatim>\<open>double\<close>, rounded to
  \<^verbatim>\<open>float\<close> by the assignment and by the \<^verbatim>\<open>return\<close>.
\<close>


definition vec3f_dot_f32 :: "vec3f \<Rightarrow> vec3f \<Rightarrow> real" where
  "vec3f_dot_f32 a b =
     to_float (to_float (to_float (vx a * vx b) + to_float (vy a * vy b)) + to_float (vz a * vz b))"

definition vec3f_add_f32 :: "vec3f \<Rightarrow> vec3f \<Rightarrow> vec3f" where
  "vec3f_add_f32 a b =
     \<lparr>vx = to_float (vx a + vx b), vy = to_float (vy a + vy b), vz = to_float (vz a + vz b)\<rparr>"

definition vec3f_sub_f32 :: "vec3f \<Rightarrow> vec3f \<Rightarrow> vec3f" where
  "vec3f_sub_f32 a b =
     \<lparr>vx = to_float (vx a - vx b), vy = to_float (vy a - vy b), vz = to_float (vz a - vz b)\<rparr>"

definition vec3f_scale_f32 :: "vec3f \<Rightarrow> real \<Rightarrow> vec3f" where
  "vec3f_scale_f32 v scalar =
     \<lparr>vx = to_float (vx v * scalar), vy = to_float (vy v * scalar), vz = to_float (vz v * scalar)\<rparr>"

definition vec3f_norm_f32 :: "vec3f \<Rightarrow> real" where
  "vec3f_norm_f32 v =
     to_float (sqrt (to_float (to_float (to_float (vx v * vx v) + to_float (vy v * vy v))
                               + to_float (vz v * vz v))))"

definition vec3f_normalize_f32 :: "vec3f \<Rightarrow> vec3f" where
  "vec3f_normalize_f32 v =
     (let n = vec3f_norm_f32 v
      in if n > 0 then make_vec3f (to_float (vx v / n)) (to_float (vy v / n)) (to_float (vz v / n))
         else make_vec3f 0 0 0)"

definition lerp_f32 :: "real \<Rightarrow> real \<Rightarrow> real \<Rightarrow> real" where
  "lerp_f32 v0 v1 t = to_float (v0 + to_float (to_float (v1 - v0) * max 0 (min 1 t)))"

definition sin_f64 :: "real \<Rightarrow> real" where
  "sin_f64 x = to_double (sin x)"

definition hash_f32 :: "real \<Rightarrow> real" where
  "hash_f32 n =
     to_float (to_double (to_double (sin_f64 n * to_float 43758.5453)
                          - of_int \<lfloor>to_double (sin_f64 n * to_float 43758.5453)\<rfloor>))"

definition noise_f32 :: "vec3f \<Rightarrow> real" where
  "noise_f32 x =
     (let p = \<lparr>vx = to_float (of_int \<lfloor>vx x\<rfloor>), vy = to_float (of_int \<lfloor>vy x\<rfloor>),
               vz = to_float (of_int \<lfloor>vz x\<rfloor>)\<rparr>;
          f = \<lparr>vx = to_float (vx x - vx p), vy = to_float (vy x - vy p),
               vz = to_float (vz x - vz p)\<rparr>;
          f = vec3f_scale_f32 f
                (vec3f_dot_f32 f (vec3f_sub_f32 \<lparr>vx = 3, vy = 3, vz = 3\<rparr> (vec3f_scale_f32 f 2)));
          n = vec3f_dot_f32 p \<lparr>vx = 1, vy = 57, vz = 113\<rparr>
      in lerp_f32
           (lerp_f32 (lerp_f32 (hash_f32 (to_float (n + 0))) (hash_f32 (to_float (n + 1))) (vx f))
                     (lerp_f32 (hash_f32 (to_float (n + 57))) (hash_f32 (to_float (n + 58))) (vx f))
                     (vy f))
           (lerp_f32 (lerp_f32 (hash_f32 (to_float (n + 113))) (hash_f32 (to_float (n + 114))) (vx f))
                     (lerp_f32 (hash_f32 (to_float (n + 170))) (hash_f32 (to_float (n + 171))) (vx f))
                     (vy f))
           (vz f))"

definition rotate_f32 :: "vec3f \<Rightarrow> vec3f" where
  "rotate_f32 v =
     \<lparr>vx = vec3f_dot_f32 \<lparr>vx = to_float 0.00, vy = to_float 0.80, vz = to_float 0.60\<rparr> v,
      vy = vec3f_dot_f32 \<lparr>vx = to_float (-0.80), vy = to_float 0.36, vz = to_float (-0.48)\<rparr> v,
      vz = vec3f_dot_f32 \<lparr>vx = to_float (-0.60), vy = to_float (-0.48), vz = to_float 0.64\<rparr> v\<rparr>"

definition fractal_brownian_motion_f32 :: "vec3f \<Rightarrow> real" where
  "fractal_brownian_motion_f32 x =
     (let p = rotate_f32 x;
          f = 0;
          f = to_float (to_double (f + to_double (0.5000 * noise_f32 p)));
          p = vec3f_scale_f32 p (to_float 2.32);
          f = to_float (to_double (f + to_double (0.2500 * noise_f32 p)));
          p = vec3f_scale_f32 p (to_float 3.03);
          f = to_float (to_double (f + to_double (0.1250 * noise_f32 p)));
          p = vec3f_scale_f32 p (to_float 2.61);
          f = to_float (to_double (f + to_double (0.0625 * noise_f32 p)))
      in to_float (to_double (f / 0.9375)))"

text \<open>
  The local \<^verbatim>\<open>float displacement\<close> of \<^verbatim>\<open>signed_distance\<close>, and the function itself.
\<close>


definition displacement_f32 :: "vec3f \<Rightarrow> real" where
  "displacement_f32 p =
     to_float (- fractal_brownian_motion_f32 (vec3f_scale_f32 p (to_float 3.4)) * noise_amplitude)"

definition signed_distance_f32 :: "vec3f \<Rightarrow> real" where
  "signed_distance_f32 p =
     (let displacement = displacement_f32 p
      in to_float (vec3f_norm_f32 p - to_float (sphere_radius + displacement)))"

function sphere_trace_loop_f32 :: "nat \<Rightarrow> vec3f \<Rightarrow> vec3f \<Rightarrow> vec3f option" where
  "sphere_trace_loop_f32 i pos dir =
     (if i < 128 then
        (let d = signed_distance_f32 pos
         in if d < 0 then Some pos
            else sphere_trace_loop_f32 (i + 1)
                   (vec3f_add_f32 pos
                      (vec3f_scale_f32 dir (max (to_float (d * to_float 0.1)) (to_float 0.01)))) dir)
      else None)"
  by pat_completeness auto

termination
  by (relation "measure (\<lambda>(i, pos, dir). 128 - i)") auto

declare sphere_trace_loop_f32.simps [simp del]

definition sphere_trace_f32 :: "vec3f \<Rightarrow> vec3f \<Rightarrow> vec3f option" where
  "sphere_trace_f32 orig dir = sphere_trace_loop_f32 0 orig dir"

text \<open>
  The step \<^verbatim>\<open>std::max(d * 0.1f, 0.01f)\<close> taken from a position, the positions the marcher
  visits when no hit ends the walk early, and the sum of the steps taken before the
  \<open>k\<close>-th position (the ray parameter \<open>t\<close> of that position in exact arithmetic).
\<close>


definition march_step_f32 :: "vec3f \<Rightarrow> real" where
  "march_step_f32 pos = max (to_float (signed_distance_f32 pos * to_float 0.1)) (to_float 0.01)"

primrec march_pos_f32 :: "vec3f \<Rightarrow> vec3f \<Rightarrow> nat \<Rightarrow> vec3f" where
  "march_pos_f32 orig dir 0 = orig"
| "march_pos_f32 orig dir (Suc k) =
     (let pos = march_pos_f32 orig dir k
      in vec3f_add_f32 pos (vec3f_scale_f32 dir (march_step_f32 pos)))"

primrec march_len_f32 :: "vec3f \<Rightarrow> vec3f \<Rightarrow> nat \<Rightarrow> real" where
  "march_len_f32 orig dir 0 = 0"
| "march_len_f32 orig dir (Suc k) =
     march_len_f32 orig dir k + march_step_f32 (march_pos_f32 orig dir k)"

section \<open>Ranges of the noise pipeline in exact arithmetic\<close>

text \<open>
  In exact arithmetic the hash is a fractional part and lies in \<open>[0, 1)\<close>, a blend with a
  clamped parameter lies between its two ends, and the fractal sum divides a weighted
  sum of four noise values by the sum \<open>0.9375\<close> of the weights. These bounds carry the
  statements about the distance field below.
\<close>

lemma hash_zero: "hash 0 = 0"
  by (simp add: hash_def)

lemma hash_range: "0 \<le> hash n \<and> hash n < 1"
  unfolding hash_def by linarith

lemma lerp_convex: "lerp a b t = (1 - max 0 (min 1 t)) * a + max 0 (min 1 t) * b"
  by (simp add: lerp_def algebra_simps)

lemma lerp_ge:
  assumes "lo \<le> a" "lo \<le> b"
  shows "lo \<le> lerp a b t"
proof -
  define s where "s = max 0 (min 1 t)"
  have s: "0 \<le> s" "s \<le> 1" by (simp_all add: s_def)
  have "(1 - s) * lo + s * lo \<le> (1 - s) * a + s * b"
    using assms s by (intro add_mono mult_left_mono) auto
  then show ?thesis by (simp add: lerp_convex s_def algebra_simps)
qed

lemma lerp_le:
  assumes "a \<le> hi" "b \<le> hi"
  shows "lerp a b t \<le> hi"
proof -
  define s where "s = max 0 (min 1 t)"
  have s: "0 \<le> s" "s \<le> 1" by (simp_all add: s_def)
  have "(1 - s) * a + s * b \<le> (1 - s) * hi + s * hi"
    using assms s by (intro add_mono mult_left_mono) auto
  then show ?thesis by (simp add: lerp_convex s_def algebra_simps)
qed

lemma hash_ge: "0 \<le> hash n"
  using hash_range[of n] by simp

lemma hash_le: "hash n \<le> 1"
  using hash_range[of n] by simp

lemma noise_range: "0 \<le> noise x \<and> noise x \<le> 1"
  unfolding noise_def Let_def
  by (intro conjI lerp_ge lerp_le hash_ge hash_le)

lemma noise_ge: "0 \<le> noise x"
  using noise_range[of x] by simp

lemma noise_le: "noise x \<le> 1"
  using noise_range[of x] by simp

lemma fbm_range: "0 \<le> fractal_brownian_motion x \<and> fractal_brownian_motion x \<le> 1"
proof -
  define p1 where "p1 = rotate_vec3f x"
  define p2 where "p2 = vec3f_scale p1 2.32"
  define p3 where "p3 = vec3f_scale p2 3.03"
  define p4 where "p4 = vec3f_scale p3 2.61"
  have eq: "fractal_brownian_motion x =
      (0.5 * noise p1 + 0.25 * noise p2 + 0.125 * noise p3 + 0.0625 * noise p4) / 0.9375"
    by (simp add: fractal_brownian_motion_def Let_def p1_def p2_def p3_def p4_def)
  show ?thesis
    unfolding eq
    using noise_ge[of p1] noise_le[of p1] noise_ge[of p2] noise_le[of p2]
      noise_ge[of p3] noise_le[of p3] noise_ge[of p4] noise_le[of p4]
    by simp
qed

section \<open>The field at the origin\<close>

lemma noise_origin: "noise \<lparr>vx = 0, vy = 0, vz = 0\<rparr> = 0"
  by (simp add: noise_def Let_def vec3f_scale_def vec3f_dot_def vec3f_sub_def lerp_def hash_zero)

lemma fbm_origin: "fractal_brownian_motion \<lparr>vx = 0, vy = 0, vz = 0\<rparr> = 0"
  by (simp add: fractal_brownian_motion_def Let_def rotate_vec3f_def vec3f_dot_def
      vec3f_scale_def noise_origin)

lemma sd_origin: "signed_distance \<lparr>vx = 0, vy = 0, vz = 0\<rparr> = -1.5"
  using fbm_origin
  by (simp add: signed_distance_def Let_def vec3f_scale_def vec3f_norm_def sphere_radius_def
      noise_amplitude_def)

text \<open>
  Claim C3. At the origin every octave of the noise reads the hash at lattice index \<open>0\<close>,
  which is \<open>0\<close>, so the displacement vanishes and the signed distance is minus the sphere
  radius \<open>1.5\<close>: strictly negative, and within the bound \<open>amplitude - radius\<close> that the
  range of the fractal noise gives for the centre of the sphere.
\<close>

theorem signed_distance_origin_negative:
  "signed_distance \<lparr>vx = 0, vy = 0, vz = 0\<rparr> < 0 \<and>
   signed_distance \<lparr>vx = 0, vy = 0, vz = 0\<rparr> = - sphere_radius \<and>
   signed_distance \<lparr>vx = 0, vy = 0, vz = 0\<rparr> \<le> noise_amplitude - sphere_radius"
  by (simp add: sd_origin sphere_radius_def noise_amplitude_def)

section \<open>Normalisation in exact arithmetic\<close>

text \<open>
  In exact arithmetic the normalised vector has length \<open>1\<close>, and a second normalisation
  divides by \<open>1\<close>.
\<close>

lemma normalize_idem:
  "vec3f_normalize (vec3f_normalize v) = vec3f_normalize v"
proof (cases "vec3f_norm v > 0")
  case False
  then show ?thesis
    by (simp add: vec3f_normalize_def Let_def make_vec3f_def vec3f_norm_def)
next
  case True
  define n where "n = vec3f_norm v"
  have n: "n > 0" using True by (simp add: n_def)
  have sq: "n * n = vx v * vx v + vy v * vy v + vz v * vz v"
    unfolding n_def vec3f_norm_def
    by (metis real_sqrt_mult_self abs_of_nonneg add_nonneg_nonneg zero_le_square)
  have u: "vec3f_normalize v = \<lparr>vx = vx v / n, vy = vy v / n, vz = vz v / n\<rparr>"
    using n by (simp add: vec3f_normalize_def Let_def make_vec3f_def n_def)
  have "vx v / n * (vx v / n) + vy v / n * (vy v / n) + vz v / n * (vz v / n)
       = (vx v * vx v + vy v * vy v + vz v * vz v) / (n * n)"
    by (simp add: add_divide_distrib)
  also have "\<dots> = 1" using n unfolding sq[symmetric] by simp
  finally have "vec3f_norm (vec3f_normalize v) = 1"
    by (simp add: u vec3f_norm_def)
  then show ?thesis
    by (simp add: u vec3f_normalize_def[of "\<lparr>vx = vx v / n, vy = vy v / n, vz = vz v / n\<rparr>"] Let_def make_vec3f_def)
qed

lemma normalize_zero:
  "vec3f_normalize \<lparr>vx = 0, vy = 0, vz = 0\<rparr> = \<lparr>vx = 0, vy = 0, vz = 0\<rparr>"
  by (simp add: vec3f_normalize_def vec3f_norm_def make_vec3f_def)

section \<open>The noise is the trilinear blend of eight lattice hashes\<close>

lemma lerp_trilinear:
  "lerp (lerp (lerp a b tx) (lerp c d tx) ty) (lerp (lerp e f tx) (lerp g h tx) ty) tz =
     (1 - clamp01 tx) * (1 - clamp01 ty) * (1 - clamp01 tz) * a
     + clamp01 tx * (1 - clamp01 ty) * (1 - clamp01 tz) * b
     + (1 - clamp01 tx) * clamp01 ty * (1 - clamp01 tz) * c
     + clamp01 tx * clamp01 ty * (1 - clamp01 tz) * d
     + (1 - clamp01 tx) * (1 - clamp01 ty) * clamp01 tz * e
     + clamp01 tx * (1 - clamp01 ty) * clamp01 tz * f
     + (1 - clamp01 tx) * clamp01 ty * clamp01 tz * g
     + clamp01 tx * clamp01 ty * clamp01 tz * h"
  unfolding lerp_def clamp01_def by (simp add: algebra_simps)

text \<open>
  Claim C4. For every point \<open>x\<close> the noise of the program is the noise of the
  specification: cell \<open>p = floor x\<close>, offset \<open>f = x - p\<close>, all three axes of \<open>f\<close> scaled by
  the one weight \<open>w = dot f ((3,3,3) - 2 f)\<close>, lattice index \<open>n = dot p (1, 57, 113)\<close>, and
  the trilinear blend of \<open>hash (n + c)\<close> over the corner offsets
  \<open>0, 1, 57, 58, 113, 114, 170, 171\<close>; and \<open>lerp\<close> blends with its parameter clamped to
  \<open>[0, 1]\<close>.
\<close>

theorem noise_refines_spec:
  "noise x = noise_spec x \<and> lerp a b t = (1 - clamp01 t) * a + clamp01 t * b"
proof
  show "noise x = noise_spec x"
    unfolding noise_def noise_spec_def Let_def lerp_trilinear
    by (simp add: vec3f_scale_def vec3f_dot_def vec3f_sub_def mult.commute)
  show "lerp a b t = (1 - clamp01 t) * a + clamp01 t * b"
    unfolding lerp_def clamp01_def by (simp add: algebra_simps)
qed

section \<open>The ray marcher\<close>

lemma sphere_trace_loop_char:
  "i \<le> 128 \<Longrightarrow>
   sphere_trace_loop i (march_pos orig dir i) dir =
     (if \<exists>k. i \<le> k \<and> k < 128 \<and> signed_distance (march_pos orig dir k) < 0
      then Some (march_pos orig dir
                   (LEAST k. i \<le> k \<and> signed_distance (march_pos orig dir k) < 0))
      else None)"
proof (induction "128 - i" arbitrary: i)
  case 0
  then have "i = 128" by simp
  then show ?case by (simp add: sphere_trace_loop.simps)
next
  case (Suc n)
  then have i: "i < 128" by simp
  let ?P = "\<lambda>k. signed_distance (march_pos orig dir k) < 0"
  show ?case
  proof (cases "?P i")
    case True
    have "(LEAST k. i \<le> k \<and> ?P k) = i"
      using True by (intro Least_equality) auto
    moreover have "\<exists>k. i \<le> k \<and> k < 128 \<and> ?P k" using True i by blast
    ultimately show ?thesis
      using True i by (subst sphere_trace_loop.simps) (simp add: Let_def)
  next
    case False
    have h: "(i \<le> k \<and> ?P k) = (i + 1 \<le> k \<and> ?P k)" for k
      using False by (cases "k = i") auto
    have eq: "(\<lambda>k. i \<le> k \<and> ?P k) = (\<lambda>k. i + 1 \<le> k \<and> ?P k)"
      using h by (simp add: fun_eq_iff)
    have ex: "(\<exists>k. i \<le> k \<and> k < 128 \<and> ?P k) = (\<exists>k. i + 1 \<le> k \<and> k < 128 \<and> ?P k)"
      using h by blast
    have IH: "sphere_trace_loop (i + 1) (march_pos orig dir (i + 1)) dir =
        (if \<exists>k. i + 1 \<le> k \<and> k < 128 \<and> ?P k
         then Some (march_pos orig dir (LEAST k. i + 1 \<le> k \<and> ?P k)) else None)"
      using Suc(1)[of "i + 1"] Suc(2) i by simp
    have "sphere_trace_loop i (march_pos orig dir i) dir =
          sphere_trace_loop (i + 1) (march_pos orig dir (i + 1)) dir"
      using False i by (subst sphere_trace_loop.simps) (simp add: Let_def)
    then show ?thesis
      unfolding IH ex eq by simp
  qed
qed

lemma sphere_trace_char:
  "sphere_trace orig dir =
     (if \<exists>k<128. signed_distance (march_pos orig dir k) < 0
      then Some (march_pos orig dir (LEAST k. signed_distance (march_pos orig dir k) < 0))
      else None)"
  using sphere_trace_loop_char[of 0 orig dir] by (simp add: sphere_trace_def)

text \<open>
  Claim C1, as the program has it. The marcher returns the first of the 128 visited
  positions at which the field is strictly negative, and reports no hit when there is
  none. A position at which the field is exactly zero does not end the walk.
\<close>

theorem sphere_trace_hits_first_negative:
  "sphere_trace orig dir =
     (if \<exists>k<128. signed_distance (march_pos orig dir k) < 0
      then Some (march_pos orig dir (LEAST k. signed_distance (march_pos orig dir k) < 0))
      else None)"
  by (rule sphere_trace_char)

subsection \<open>The field has a zero\<close>

text \<open>
  Along the line \<open>s \<mapsto> (0, 4 s, 3 s)\<close> the rotated and scaled sample points of all four
  octaves stay on the first lattice axis, where the shared weight is the smoothstep of
  the offset and the noise is continuous across the cells. The field is at most \<open>0\<close> at
  distance \<open>0.5\<close> from the centre and at least \<open>0\<close> at distance \<open>1.5\<close>, so it vanishes in
  between.
\<close>

lemma continuous_on_transfer:
  "continuous_on S g \<Longrightarrow> (\<And>x. x \<in> S \<Longrightarrow> f x = g x) \<Longrightarrow> continuous_on S f"
  by simp

lemma lerp_zero: "lerp a b 0 = a"
  by (simp add: lerp_def)

lemma lerp_one: "lerp a b 1 = b"
  by (simp add: lerp_def)

lemma noise_axis:
  "noise \<lparr>vx = u, vy = 0, vz = 0\<rparr> =
     lerp (hash (of_int \<lfloor>u\<rfloor>)) (hash (of_int \<lfloor>u\<rfloor> + 1))
       ((u - of_int \<lfloor>u\<rfloor>) * ((u - of_int \<lfloor>u\<rfloor>) * (3 - (u - of_int \<lfloor>u\<rfloor>) * 2)))"
  by (simp add: noise_def Let_def vec3f_scale_def vec3f_dot_def vec3f_sub_def lerp_zero)

lemma noise_axis_cell:
  assumes "of_int m \<le> u" "u \<le> of_int m + 1"
  shows "noise \<lparr>vx = u, vy = 0, vz = 0\<rparr> =
     lerp (hash (of_int m)) (hash (of_int m + 1))
       ((u - of_int m) * ((u - of_int m) * (3 - (u - of_int m) * 2)))"
proof (cases "u = of_int m + 1")
  case True
  then have "\<lfloor>u\<rfloor> = m + 1" by simp
  then show ?thesis
    unfolding noise_axis by (simp add: True lerp_zero lerp_one)
next
  case False
  then have "\<lfloor>u\<rfloor> = m" using assms by (intro floor_unique) auto
  then show ?thesis unfolding noise_axis by simp
qed

lemma noise_axis_continuous_cell:
  "continuous_on {of_int m .. of_int m + 1} (\<lambda>u. noise \<lparr>vx = u, vy = 0, vz = 0\<rparr>)"
proof -
  have "continuous_on {of_int m .. of_int m + 1}
     (\<lambda>u. lerp (hash (of_int m)) (hash (of_int m + 1))
       ((u - of_int m) * ((u - of_int m) * (3 - (u - of_int m) * 2))))"
    unfolding lerp_def by (intro continuous_intros)
  then show ?thesis
    by (rule continuous_on_transfer) (rule noise_axis_cell, simp_all)
qed

lemma noise_axis_continuous:
  "continuous_on {0 .. real N} (\<lambda>u. noise \<lparr>vx = u, vy = 0, vz = 0\<rparr>)"
proof (induction N)
  case 0
  then show ?case by simp
next
  case (Suc N)
  have "{0 .. real (Suc N)} = {0 .. real N} \<union> {real N .. real N + 1}" by auto
  moreover have "continuous_on {real N .. real N + 1} (\<lambda>u. noise \<lparr>vx = u, vy = 0, vz = 0\<rparr>)"
    using noise_axis_continuous_cell[of "int N"] by simp
  ultimately show ?case
    using Suc by (simp add: continuous_on_closed_Un)
qed

lemma noise_axis_continuous_scaled:
  assumes c: "0 \<le> c"
  shows "continuous_on {0 .. 1} (\<lambda>s. noise \<lparr>vx = s * c, vy = 0, vz = 0\<rparr>)"
proof -
  obtain N :: nat where N: "c \<le> real N" using real_arch_simple by blast
  have "continuous_on {0 .. 1} ((\<lambda>u. noise \<lparr>vx = u, vy = 0, vz = 0\<rparr>) \<circ> (\<lambda>s. s * c))"
  proof (rule continuous_on_compose)
    show "continuous_on {0..1} (\<lambda>s. s * c)" by (intro continuous_intros)
    have "(\<lambda>s. s * c) ` {0..1} \<subseteq> {0 .. real N}"
    proof
      fix y assume "y \<in> (\<lambda>s. s * c) ` {0..1}"
      then obtain s where s: "0 \<le> s" "s \<le> 1" "y = s * c" by auto
      have "s * c \<le> 1 * c" using s c by (intro mult_right_mono) auto
      then show "y \<in> {0 .. real N}" using s c N by auto
    qed
    then show "continuous_on ((\<lambda>s. s * c) ` {0..1}) (\<lambda>u. noise \<lparr>vx = u, vy = 0, vz = 0\<rparr>)"
      by (rule continuous_on_subset[OF noise_axis_continuous])
  qed
  then show ?thesis by (simp add: comp_def)
qed

lemma fbm_on_line:
  "fractal_brownian_motion (vec3f_scale \<lparr>vx = 0, vy = 4 * s, vz = 3 * s\<rparr> 3.4) =
     (0.5 * noise \<lparr>vx = s * 17, vy = 0, vz = 0\<rparr>
      + 0.25 * noise \<lparr>vx = s * 17 * 2.32, vy = 0, vz = 0\<rparr>
      + 0.125 * noise \<lparr>vx = s * 17 * 2.32 * 3.03, vy = 0, vz = 0\<rparr>
      + 0.0625 * noise \<lparr>vx = s * 17 * 2.32 * 3.03 * 2.61, vy = 0, vz = 0\<rparr>) / 0.9375"
proof -
  have r: "rotate_vec3f (vec3f_scale \<lparr>vx = 0, vy = 4 * s, vz = 3 * s\<rparr> 3.4) =
      \<lparr>vx = s * 17, vy = 0, vz = 0\<rparr>"
    by (simp add: rotate_vec3f_def vec3f_scale_def vec3f_dot_def)
  show ?thesis
    unfolding fractal_brownian_motion_def Let_def r
    by (simp add: vec3f_scale_def)
qed

lemma norm_on_line:
  assumes "0 \<le> s"
  shows "vec3f_norm \<lparr>vx = 0, vy = 4 * s, vz = 3 * s\<rparr> = 5 * s"
proof -
  have eq: "4 * s * (4 * s) + 3 * s * (3 * s) = (5 * s) * (5 * s)" by (simp add: algebra_simps)
  have "vec3f_norm \<lparr>vx = 0, vy = 4 * s, vz = 3 * s\<rparr> = sqrt (4 * s * (4 * s) + 3 * s * (3 * s))"
    by (simp add: vec3f_norm_def)
  also have "\<dots> = sqrt ((5 * s) * (5 * s))" by (simp only: eq)
  also have "\<dots> = \<bar>5 * s\<bar>" by (rule real_sqrt_abs2)
  finally show ?thesis using assms by simp
qed

lemma fbm_line_continuous:
  "continuous_on {0 .. 1}
     (\<lambda>s. fractal_brownian_motion (vec3f_scale \<lparr>vx = 0, vy = 4 * s, vz = 3 * s\<rparr> 3.4))"
  unfolding fbm_on_line mult.assoc
  by (intro continuous_intros noise_axis_continuous_scaled) simp_all

lemma sd_line_continuous:
  "continuous_on {0 .. 1} (\<lambda>s. signed_distance \<lparr>vx = 0, vy = 4 * s, vz = 3 * s\<rparr>)"
proof -
  have "continuous_on {0 .. 1}
     (\<lambda>s. 5 * s - (sphere_radius +
        - fractal_brownian_motion (vec3f_scale \<lparr>vx = 0, vy = 4 * s, vz = 3 * s\<rparr> 3.4) * noise_amplitude))"
    by (intro continuous_intros fbm_line_continuous)
  then show ?thesis
    by (rule continuous_on_transfer) (simp add: signed_distance_def Let_def norm_on_line)
qed

lemma sd_has_zero: "\<exists>p. signed_distance p = 0"
proof -
  let ?f = "\<lambda>s. signed_distance \<lparr>vx = 0, vy = 4 * s, vz = 3 * s\<rparr>"
  have lo: "?f (1 / 10) \<le> 0"
    using fbm_range[of "vec3f_scale \<lparr>vx = 0, vy = 4 * (1 / 10), vz = 3 * (1 / 10)\<rparr> 3.4"]
      norm_on_line[of "1 / 10"]
    by (simp add: signed_distance_def Let_def sphere_radius_def noise_amplitude_def)
  have hi: "0 \<le> ?f (3 / 10)"
    using fbm_range[of "vec3f_scale \<lparr>vx = 0, vy = 4 * (3 / 10), vz = 3 * (3 / 10)\<rparr> 3.4"]
      norm_on_line[of "3 / 10"]
    by (simp add: signed_distance_def Let_def sphere_radius_def noise_amplitude_def)
  have "continuous_on {1 / 10 .. 3 / 10} ?f"
    by (rule continuous_on_subset[OF sd_line_continuous]) auto
  from IVT'[OF lo hi _ this] obtain s where "?f s = 0" by auto
  then show ?thesis by blast
qed

lemma march_pos_still:
  "march_pos p \<lparr>vx = 0, vy = 0, vz = 0\<rparr> k = p"
  by (induction k) (simp_all add: Let_def vec3f_add_def vec3f_scale_def)

text \<open>
  Claim C1, as stated, fails: started at a zero of the field with the zero direction, the
  marcher sees the non-positive value \<open>0\<close> at every one of its 128 steps and reports no
  hit.
\<close>

theorem sphere_trace_nonpositive_counterexample:
  "\<not> (\<forall>orig dir. sphere_trace orig dir =
        (if \<exists>k<128. signed_distance (march_pos orig dir k) \<le> 0
         then Some (march_pos orig dir (LEAST k. signed_distance (march_pos orig dir k) \<le> 0))
         else None))"
proof
  assume a: "\<forall>orig dir. sphere_trace orig dir =
        (if \<exists>k<128. signed_distance (march_pos orig dir k) \<le> 0
         then Some (march_pos orig dir (LEAST k. signed_distance (march_pos orig dir k) \<le> 0))
         else None)"
  obtain p where p: "signed_distance p = 0" using sd_has_zero by blast
  let ?z = "\<lparr>vx = 0, vy = 0, vz = 0\<rparr>"
  have "sphere_trace p ?z = None"
    by (simp add: sphere_trace_char march_pos_still p)
  moreover have "\<exists>k<128. signed_distance (march_pos p ?z k) \<le> 0"
    by (intro exI[of _ 0]) (simp add: p)
  then have "sphere_trace p ?z \<noteq> None"
    using a[rule_format, of p ?z] by simp
  ultimately show False by simp
qed

subsection \<open>The ray through the centre\<close>

text \<open>
  Bounds for \<open>pi\<close> from Machin's formula and for \<open>sin 171\<close> from its Taylor polynomial give
  \<open>hash 171 \<le> 1 / 2\<close>. On the stretch \<open>0.7 \<le> z \<le> 0.76\<close> of the third axis the first octave
  of the noise reads the lattice cell \<open>(1, -2, 1)\<close> of index \<open>0\<close> with all three blend
  parameters clamped to \<open>1\<close>, so it is \<open>hash 171\<close> and the field is negative there.
\<close>

lemma arctan_partial_sums:
  fixes x :: real
  assumes "0 \<le> x" "x \<le> 1"
  shows "(\<Sum>i<2 * n. (- 1) ^ i * (1 / real (i * 2 + 1) * x ^ (i * 2 + 1))) \<le> arctan x"
    and "arctan x \<le> (\<Sum>i<2 * n + 1. (- 1) ^ i * (1 / real (i * 2 + 1) * x ^ (i * 2 + 1)))"
proof -
  let ?a = "\<lambda>i. 1 / real (i * 2 + 1) * x ^ (i * 2 + 1)"
  have z: "?a \<longlonglongrightarrow> 0"
    using assms by (intro zeroseq_arctan_series) simp
  have p: "0 \<le> ?a i" for i using assms by simp
  have m: "?a (Suc i) \<le> ?a i" for i
  proof -
    have "x ^ (Suc i * 2 + 1) \<le> x ^ (i * 2 + 1)"
      using assms by (intro power_decreasing) auto
    moreover have "1 / real (Suc i * 2 + 1) \<le> 1 / real (i * 2 + 1)"
      by (intro divide_left_mono) auto
    ultimately show ?thesis
      using assms by (intro mult_mono) auto
  qed
  have s: "arctan x = (\<Sum>i. (- 1) ^ i * ?a i)"
    using assms by (intro arctan_series) simp
  show "(\<Sum>i<2 * n. (- 1) ^ i * ?a i) \<le> arctan x"
    unfolding s by (rule summable_Leibniz'(2)[OF z p m])
  show "arctan x \<le> (\<Sum>i<2 * n + 1. (- 1) ^ i * ?a i)"
    unfolding s by (rule summable_Leibniz'(4)[OF z p m])
qed

lemma pi_bounds: "3.1415926 < pi \<and> pi < 3.1415927"
proof -
  have a5l: "(\<Sum>i<2 * 3. (- 1) ^ i * (1 / real (i * 2 + 1) * (1 / 5) ^ (i * 2 + 1))) \<le> arctan (1 / 5 :: real)"
    by (rule arctan_partial_sums) simp_all
  have a5u: "arctan (1 / 5 :: real) \<le> (\<Sum>i<2 * 3 + 1. (- 1) ^ i * (1 / real (i * 2 + 1) * (1 / 5) ^ (i * 2 + 1)))"
    by (rule arctan_partial_sums) simp_all
  have a239l: "(\<Sum>i<2 * 1. (- 1) ^ i * (1 / real (i * 2 + 1) * (1 / 239) ^ (i * 2 + 1))) \<le> arctan (1 / 239 :: real)"
    by (rule arctan_partial_sums) simp_all
  have a239u: "arctan (1 / 239 :: real) \<le> (\<Sum>i<2 * 1 + 1. (- 1) ^ i * (1 / real (i * 2 + 1) * (1 / 239) ^ (i * 2 + 1)))"
    by (rule arctan_partial_sums) simp_all
  have p: "pi = 16 * arctan (1 / 5) - 4 * arctan (1 / 239)"
    using machin by simp
  show ?thesis
    using a5l a5u a239l a239u unfolding p
    by (simp add: eval_nat_numeral)
qed

lemma sin_taylor_poly:
  fixes x :: real
  shows "(\<Sum>m<12. sin_coeff m * x ^ m) =
    x - x ^ 3 / 6 + x ^ 5 / 120 - x ^ 7 / 5040 + x ^ 9 / 362880 - x ^ 11 / 39916800"
  by (simp add: eval_nat_numeral sin_coeff_Suc cos_coeff_Suc)


lemma sin_taylor_bounds:
  fixes x :: real
  assumes "0 \<le> x"
  shows "x - x ^ 3 / 6 + x ^ 5 / 120 - x ^ 7 / 5040 + x ^ 9 / 362880 - x ^ 11 / 39916800
           - x ^ 12 / 479001600 \<le> sin x"
    and "sin x \<le> x - x ^ 3 / 6 + x ^ 5 / 120 - x ^ 7 / 5040 + x ^ 9 / 362880 - x ^ 11 / 39916800
           + x ^ 12 / 479001600"
proof -
  have b: "\<bar>sin x - (\<Sum>m<12. sin_coeff m * x ^ m)\<bar> \<le> inverse (fact 12) * \<bar>x\<bar> ^ 12"
    by (rule Maclaurin_sin_bound)
  have "fact 12 = (479001600 :: real)"
    by (simp add: fact_numeral)
  then have f: "inverse (fact 12) * \<bar>x\<bar> ^ 12 = x ^ 12 / 479001600"
    using assms by (simp add: field_simps)
  from b have "\<bar>sin x - (x - x ^ 3 / 6 + x ^ 5 / 120 - x ^ 7 / 5040 + x ^ 9 / 362880
      - x ^ 11 / 39916800)\<bar> \<le> x ^ 12 / 479001600"
    unfolding sin_taylor_poly f .
  then show "x - x ^ 3 / 6 + x ^ 5 / 120 - x ^ 7 / 5040 + x ^ 9 / 362880 - x ^ 11 / 39916800
           - x ^ 12 / 479001600 \<le> sin x"
    and "sin x \<le> x - x ^ 3 / 6 + x ^ 5 / 120 - x ^ 7 / 5040 + x ^ 9 / 362880 - x ^ 11 / 39916800
           + x ^ 12 / 479001600"
    by linarith+
qed

lemma sin_171_bounds:
  "42734 \<le> sin (171 :: real) * 43758.5453 \<and> sin (171 :: real) * 43758.5453 \<le> 42734.5"
proof -
  define r :: real where "r = 171 - 54 * pi"
  have pb: "3.1415926 < pi" "pi < 3.1415927" using pi_bounds by auto
  have "sin r = sin 171 * cos (2 * pi * of_int 27) - cos 171 * sin (2 * pi * of_int 27)"
    unfolding r_def by (subst sin_diff[symmetric]) simp
  then have sr: "sin (171 :: real) = sin r"
    unfolding cos_int_2pin sin_int_2pin by simp
  define lo :: real where "lo = 171 - 54 * 3.1415927"
  define hi :: real where "hi = 171 - 54 * 3.1415926"
  have r: "lo \<le> r" "r \<le> hi" using pb by (simp_all add: r_def lo_def hi_def)
  have h2: "hi \<le> pi / 2" using pb by (simp add: hi_def)
  have lo0: "0 \<le> lo" by (simp add: lo_def)
  have hi0: "0 \<le> hi" by (simp add: hi_def)
  have "sin lo \<le> sin r"
    using r h2 pb lo0 by (intro sin_monotone_2pi_le) auto
  moreover have "sin r \<le> sin hi"
    using r h2 pb lo0 by (intro sin_monotone_2pi_le) auto
  moreover note sin_taylor_bounds(1)[OF lo0] sin_taylor_bounds(2)[OF hi0]
  moreover have "42734 / 43758.5453 \<le> lo - lo ^ 3 / 6 + lo ^ 5 / 120 - lo ^ 7 / 5040
      + lo ^ 9 / 362880 - lo ^ 11 / 39916800 - lo ^ 12 / 479001600"
    unfolding lo_def by (simp add: power_divide)
  moreover have "hi - hi ^ 3 / 6 + hi ^ 5 / 120 - hi ^ 7 / 5040
      + hi ^ 9 / 362880 - hi ^ 11 / 39916800 + hi ^ 12 / 479001600 \<le> 42734.5 / 43758.5453"
    unfolding hi_def by (simp add: power_divide)
  ultimately have "42734 / 43758.5453 \<le> sin (171 :: real)" "sin (171 :: real) \<le> 42734.5 / 43758.5453"
    unfolding sr by linarith+
  then show ?thesis by (simp add: field_simps)
qed

lemma hash_171: "hash 171 \<le> 1 / 2"
proof -
  have b: "42734 \<le> sin (171 :: real) * 43758.5453" "sin (171 :: real) * 43758.5453 \<le> 42734.5"
    using sin_171_bounds by auto
  then have "\<lfloor>sin (171 :: real) * 43758.5453\<rfloor> = 42734"
    by (intro floor_unique) auto
  then show ?thesis using b by (simp add: hash_def)
qed

lemma lerp_clamp_hi: "1 \<le> t \<Longrightarrow> lerp a b t = b"
  by (simp add: lerp_def)

lemma norm_on_axis: "vec3f_norm \<lparr>vx = 0, vy = 0, vz = z\<rparr> = \<bar>z\<bar>"
  by (simp add: vec3f_norm_def)

lemma sd_on_axis:
  "signed_distance \<lparr>vx = 0, vy = 0, vz = z\<rparr> =
     \<bar>z\<bar> - 1.5 + fractal_brownian_motion (vec3f_scale \<lparr>vx = 0, vy = 0, vz = z\<rparr> 3.4)"
  by (simp add: signed_distance_def Let_def norm_on_axis sphere_radius_def noise_amplitude_def)

lemma sd_axis_lower: "\<bar>z\<bar> - 1.5 \<le> signed_distance \<lparr>vx = 0, vy = 0, vz = z\<rparr>"
  using fbm_range[of "vec3f_scale \<lparr>vx = 0, vy = 0, vz = z\<rparr> 3.4"] by (simp add: sd_on_axis)

lemma sd_axis_upper: "signed_distance \<lparr>vx = 0, vy = 0, vz = z\<rparr> \<le> \<bar>z\<bar> - 0.5"
  using fbm_range[of "vec3f_scale \<lparr>vx = 0, vy = 0, vz = z\<rparr> 3.4"] by (simp add: sd_on_axis)

lemma rotate_axis:
  "rotate_vec3f (vec3f_scale \<lparr>vx = 0, vy = 0, vz = z\<rparr> 3.4) =
     \<lparr>vx = 2.04 * z, vy = - 1.632 * z, vz = 2.176 * z\<rparr>"
  by (simp add: rotate_vec3f_def vec3f_scale_def vec3f_dot_def)

lemma noise_all_clamped:
  fixes x :: vec3f
  defines "fx \<equiv> vx x - of_int \<lfloor>vx x\<rfloor>"
    and "fy \<equiv> vy x - of_int \<lfloor>vy x\<rfloor>"
    and "fz \<equiv> vz x - of_int \<lfloor>vz x\<rfloor>"
  defines "w \<equiv> fx * (3 - fx * 2) + fy * (3 - fy * 2) + fz * (3 - fz * 2)"
  assumes t: "1 \<le> fx * w" "1 \<le> fy * w" "1 \<le> fz * w"
  shows "noise x =
     hash (of_int \<lfloor>vx x\<rfloor> + of_int \<lfloor>vy x\<rfloor> * 57 + of_int \<lfloor>vz x\<rfloor> * 113 + 171)"
proof -
  define f where "f = \<lparr>vx = fx, vy = fy, vz = fz\<rparr>"
  define g where
    "g = vec3f_scale f (vec3f_dot f (vec3f_sub \<lparr>vx = 3, vy = 3, vz = 3\<rparr> (vec3f_scale f 2)))"
  define n where
    "n = vec3f_dot \<lparr>vx = of_int \<lfloor>vx x\<rfloor>, vy = of_int \<lfloor>vy x\<rfloor>, vz = of_int \<lfloor>vz x\<rfloor>\<rparr>
           \<lparr>vx = 1, vy = 57, vz = 113\<rparr>"
  have unf: "noise x =
      lerp (lerp (lerp (hash (n + 0)) (hash (n + 1)) (vx g))
                 (lerp (hash (n + 57)) (hash (n + 58)) (vx g)) (vy g))
           (lerp (lerp (hash (n + 113)) (hash (n + 114)) (vx g))
                 (lerp (hash (n + 170)) (hash (n + 171)) (vx g)) (vy g))
           (vz g)"
    unfolding noise_def Let_def n_def g_def f_def fx_def fy_def fz_def by simp
  have g: "vx g = fx * w" "vy g = fy * w" "vz g = fz * w"
    by (simp_all add: g_def f_def w_def vec3f_scale_def vec3f_dot_def vec3f_sub_def)
  have c: "1 \<le> vx g" "1 \<le> vy g" "1 \<le> vz g"
    using t by (simp_all only: g)
  have "noise x = hash (n + 171)"
    unfolding unf by (simp only: lerp_clamp_hi[OF c(1)] lerp_clamp_hi[OF c(2)] lerp_clamp_hi[OF c(3)])
  then show ?thesis
    by (simp add: n_def vec3f_dot_def)
qed

lemma first_octave_clamped:
  assumes z: "0.7 \<le> z" "z \<le> 0.76"
  shows "noise \<lparr>vx = 2.04 * z, vy = - 1.632 * z, vz = 2.176 * z\<rparr> = hash 171"
proof -
  define x where "x = \<lparr>vx = 2.04 * z, vy = - 1.632 * z, vz = 2.176 * z\<rparr>"
  have fx: "\<lfloor>vx x\<rfloor> = 1" using z by (intro floor_unique) (auto simp: x_def)
  have fy: "\<lfloor>vy x\<rfloor> = - 2" using z by (intro floor_unique) (auto simp: x_def)
  have fz: "\<lfloor>vz x\<rfloor> = 1" using z by (intro floor_unique) (auto simp: x_def)
  define w where "w = (vx x - 1) * (3 - (vx x - 1) * 2)
      + (vy x + 2) * (3 - (vy x + 2) * 2)
      + (vz x - 1) * (3 - (vz x - 1) * 2)"
  have "0 \<le> (z - 0.7) * (0.76 - z)" using z by (intro mult_nonneg_nonneg) auto
  moreover have "(z - 0.7) * (0.76 - z) = 1.46 * z - 0.532 - z * z"
    by (simp add: field_simps)
  ultimately have zz: "z * z \<le> 1.46 * z - 0.532" by linarith
  have "w = - 23.12 * (z * z) + 37.672 * z - 12"
    by (simp add: w_def x_def field_simps)
  then have w3: "3 \<le> w" using zz z by simp
  have tx: "1 \<le> (vx x - 1) * w"
  proof -
    have "0.4 * 3 \<le> (vx x - 1) * w" using z w3 by (intro mult_mono) (auto simp: x_def)
    then show ?thesis by simp
  qed
  have ty: "1 \<le> (vy x + 2) * w"
  proof -
    have "0.7 * 3 \<le> (vy x + 2) * w" using z w3 by (intro mult_mono) (auto simp: x_def)
    then show ?thesis by simp
  qed
  have tz: "1 \<le> (vz x - 1) * w"
  proof -
    have "0.5 * 3 \<le> (vz x - 1) * w" using z w3 by (intro mult_mono) (auto simp: x_def)
    then show ?thesis by simp
  qed
  have "noise x =
     hash (of_int \<lfloor>vx x\<rfloor> + of_int \<lfloor>vy x\<rfloor> * 57 + of_int \<lfloor>vz x\<rfloor> * 113 + 171)"
    by (rule noise_all_clamped) (simp_all only: fx fy fz tx[unfolded w_def] ty[unfolded w_def]
        tz[unfolded w_def] of_int_1 of_int_minus of_int_numeral diff_minus_eq_add)
  then have "noise x = hash 171"
    unfolding fx fy fz by simp
  then show ?thesis
    unfolding x_def .
qed

lemma sd_axis_inside:
  assumes z: "0.7 \<le> z" "z \<le> 0.76"
  shows "signed_distance \<lparr>vx = 0, vy = 0, vz = z\<rparr> < 0"
proof -
  define p1 where "p1 = \<lparr>vx = 2.04 * z, vy = - 1.632 * z, vz = 2.176 * z\<rparr>"
  define p2 where "p2 = vec3f_scale p1 2.32"
  define p3 where "p3 = vec3f_scale p2 3.03"
  define p4 where "p4 = vec3f_scale p3 2.61"
  have eq: "fractal_brownian_motion (vec3f_scale \<lparr>vx = 0, vy = 0, vz = z\<rparr> 3.4) =
      (0.5 * noise p1 + 0.25 * noise p2 + 0.125 * noise p3 + 0.0625 * noise p4) / 0.9375"
    unfolding fractal_brownian_motion_def Let_def rotate_axis
    by (simp add: p1_def p2_def p3_def p4_def)
  have n1: "noise p1 \<le> 1 / 2"
    unfolding p1_def first_octave_clamped[OF z] by (rule hash_171)
  have "fractal_brownian_motion (vec3f_scale \<lparr>vx = 0, vy = 0, vz = z\<rparr> 3.4) < 0.74"
    unfolding eq using n1 noise_le[of p2] noise_le[of p3] noise_le[of p4] by simp
  then show ?thesis using z by (simp add: sd_on_axis)
qed

lemma march_axis_xy:
  "vx (march_pos \<lparr>vx = 0, vy = 0, vz = 3\<rparr> \<lparr>vx = 0, vy = 0, vz = c\<rparr> k) = 0 \<and>
   vy (march_pos \<lparr>vx = 0, vy = 0, vz = 3\<rparr> \<lparr>vx = 0, vy = 0, vz = c\<rparr> k) = 0"
  by (induction k) (simp_all add: Let_def vec3f_add_def vec3f_scale_def)

lemma march_axis:
  "march_pos \<lparr>vx = 0, vy = 0, vz = 3\<rparr> \<lparr>vx = 0, vy = 0, vz = c\<rparr> k =
     \<lparr>vx = 0, vy = 0, vz = vz (march_pos \<lparr>vx = 0, vy = 0, vz = 3\<rparr> \<lparr>vx = 0, vy = 0, vz = c\<rparr> k)\<rparr>"
  using march_axis_xy[of c k] by simp

lemma march_axis_step:
  "vz (march_pos \<lparr>vx = 0, vy = 0, vz = 3\<rparr> \<lparr>vx = 0, vy = 0, vz = c\<rparr> (Suc k)) =
     vz (march_pos \<lparr>vx = 0, vy = 0, vz = 3\<rparr> \<lparr>vx = 0, vy = 0, vz = c\<rparr> k) +
     c * max (signed_distance
                \<lparr>vx = 0, vy = 0, vz = vz (march_pos \<lparr>vx = 0, vy = 0, vz = 3\<rparr> \<lparr>vx = 0, vy = 0, vz = c\<rparr> k)\<rparr>
              * 0.1) 0.01"
  by (subst (3) march_axis) (simp add: Let_def vec3f_add_def vec3f_scale_def march_axis[symmetric])

lemma trace_toward_hits:
  "\<exists>k<128. signed_distance (march_pos \<lparr>vx = 0, vy = 0, vz = 3\<rparr> \<lparr>vx = 0, vy = 0, vz = - 1\<rparr> k) < 0"
proof (rule ccontr)
  assume "\<not> ?thesis"
  define z where "z k = vz (march_pos \<lparr>vx = 0, vy = 0, vz = 3\<rparr> \<lparr>vx = 0, vy = 0, vz = - 1\<rparr> k)" for k
  define d where "d k = signed_distance \<lparr>vx = 0, vy = 0, vz = z k\<rparr>" for k
  have pos: "march_pos \<lparr>vx = 0, vy = 0, vz = 3\<rparr> \<lparr>vx = 0, vy = 0, vz = - 1\<rparr> k = \<lparr>vx = 0, vy = 0, vz = z k\<rparr>" for k
    unfolding z_def by (rule march_axis)
  from \<open>\<not> ?thesis\<close> have nohit: "0 \<le> d k" if "k < 128" for k
    using that unfolding d_def pos[symmetric] by (meson not_le_imp_less)
  have z0: "z 0 = 3" by (simp add: z_def)
  have step: "z (Suc k) = z k - max (d k * 0.1) 0.01" for k
    unfolding z_def d_def using march_axis_step[of "- 1" k] by simp
  have dlo: "z k - 1.5 \<le> d k" for k
    using sd_axis_lower[of "z k"] unfolding d_def by linarith
  have dhi: "d k \<le> z k - 0.5" if "0 \<le> z k" for k
    using sd_axis_upper[of "z k"] that unfolding d_def by simp
  have A: "k \<le> 127 \<Longrightarrow> 0.76 < z k" for k
  proof (induction k)
    case 0
    then show ?case by (simp add: z0)
  next
    case (Suc k)
    then have zk: "0.76 < z k" and k: "k < 128" and k1: "Suc k < 128" by simp_all
    have "d k \<le> z k - 0.5" using zk by (intro dhi) simp
    then have "max (d k * 0.1) 0.01 \<le> max ((z k - 0.5) * 0.1) 0.01" by (simp add: max_def)
    then have lo: "0.7 \<le> z (Suc k)" using zk unfolding step by (simp add: max_def split: if_splits)
    show ?case
    proof (rule ccontr)
      assume "\<not> 0.76 < z (Suc k)"
      then have "z (Suc k) \<le> 0.76" by simp
      from sd_axis_inside[OF lo this] have "d (Suc k) < 0" by (simp add: d_def)
      with nohit[OF k1] show False by simp
    qed
  qed
  have B: "z k - 1.5 \<le> 1.5 * 0.9 ^ k" for k
  proof (induction k)
    case 0
    then show ?case by (simp add: z0)
  next
    case (Suc k)
    have "z (Suc k) - 1.5 \<le> z k - 1.5 - d k * 0.1" unfolding step by simp
    also have "\<dots> \<le> (z k - 1.5) * 0.9" using dlo[of k] by simp
    also have "\<dots> \<le> (1.5 * 0.9 ^ k) * 0.9" using Suc by (intro mult_right_mono) simp_all
    finally show ?case by simp
  qed
  have C: "z (k + m) \<le> z k - real m / 100" for k m
  proof (induction m)
    case 0
    then show ?case by simp
  next
    case (Suc m)
    have "z (k + Suc m) \<le> z (k + m) - 1 / 100" using step[of "k + m"] by simp
    with Suc have "z (k + Suc m) \<le> z k - real m / 100 - 1 / 100" by linarith
    also have "\<dots> = z k - real (Suc m) / 100" by (simp add: add_divide_distrib)
    finally show ?case .
  qed
  have "z 127 \<le> z 26 - real 101 / 100" using C[of 26 101] by simp
  also have "\<dots> \<le> 1.5 + 1.5 * 0.9 ^ 26 - 101 / 100" using B[of 26] by simp
  also have "\<dots> < 0.76" by (simp add: power_divide)
  finally show False using A[of 127] by simp
qed

lemma trace_away_misses:
  "\<not> (\<exists>k<128. signed_distance (march_pos \<lparr>vx = 0, vy = 0, vz = 3\<rparr> \<lparr>vx = 0, vy = 0, vz = 1\<rparr> k) < 0)"
proof -
  define z where "z k = vz (march_pos \<lparr>vx = 0, vy = 0, vz = 3\<rparr> \<lparr>vx = 0, vy = 0, vz = 1\<rparr> k)" for k
  have pos: "march_pos \<lparr>vx = 0, vy = 0, vz = 3\<rparr> \<lparr>vx = 0, vy = 0, vz = 1\<rparr> k = \<lparr>vx = 0, vy = 0, vz = z k\<rparr>" for k
    unfolding z_def by (rule march_axis)
  have z3: "3 \<le> z k" for k
  proof (induction k)
    case 0
    then show ?case by (simp add: z_def)
  next
    case (Suc k)
    have "z k \<le> z (Suc k)"
      unfolding z_def using march_axis_step[of 1 k] by simp
    with Suc show ?case by simp
  qed
  have "0 < signed_distance \<lparr>vx = 0, vy = 0, vz = z k\<rparr>" for k
    using sd_axis_lower[of "z k"] z3[of k] by linarith
  then show ?thesis
    unfolding pos by (meson less_asym)
qed

text \<open>
  Claim C7. From \<open>(0, 0, 3)\<close> toward \<open>(0, 0, -1)\<close> the marcher returns a hit within its 128
  steps: every step removes at least a tenth of the height above \<open>1.5\<close> and at least
  \<open>0.01\<close>, so the walk would be below \<open>0.76\<close> at step 127, and no step from above \<open>0.76\<close>
  passes the stretch \<open>[0.7, 0.76]\<close> where the field is negative. From \<open>(0, 0, 3)\<close> toward
  \<open>(0, 0, 1)\<close> the field stays at least \<open>1.5\<close> and the marcher reports no hit.
\<close>

theorem sphere_trace_centre_ray:
  "(\<exists>p. sphere_trace \<lparr>vx = 0, vy = 0, vz = 3\<rparr> \<lparr>vx = 0, vy = 0, vz = - 1\<rparr> = Some p) \<and>
   sphere_trace \<lparr>vx = 0, vy = 0, vz = 3\<rparr> \<lparr>vx = 0, vy = 0, vz = 1\<rparr> = None"
  using trace_toward_hits trace_away_misses
  by (simp add: sphere_trace_char)

section \<open>The render loops\<close>

lemma run_schedule_append:
  "run_schedule w h fov (xs @ ys) fb =
     (case run_schedule w h fov xs fb of Inl e \<Rightarrow> Inl e | Inr fb' \<Rightarrow> run_schedule w h fov ys fb')"
  by (induction xs arbitrary: fb) (auto split: sum.splits)

lemma render_inner_schedule:
  "render_inner w h fov j i fb =
     run_schedule w h fov (map (\<lambda>i. (j, i)) [i ..< size_t_of w]) fb"
proof (induction "size_t_of w - i" arbitrary: i fb)
  case 0
  then show ?case by (subst render_inner.simps) simp
next
  case (Suc n)
  then have i: "i < size_t_of w" by simp
  have IH: "render_inner w h fov j (Suc i) fb' =
      run_schedule w h fov (map (Pair j) [Suc i ..< size_t_of w]) fb'" for fb'
    using Suc(1)[of "i + 1" fb'] Suc(2) by simp
  show ?case
    using i by (subst render_inner.simps) (simp add: upt_conv_Cons IH split: sum.splits)
qed

lemma render_outer_schedule:
  "render_outer w h fov j fb =
     run_schedule w h fov
       (concat (map (\<lambda>j. map (\<lambda>i. (j, i)) [0 ..< size_t_of w]) [j ..< size_t_of h])) fb"
proof (induction "size_t_of h - j" arbitrary: j fb)
  case 0
  then show ?case by (subst render_outer.simps) simp
next
  case (Suc n)
  then have j: "j < size_t_of h" by simp
  have IH: "render_outer w h fov (Suc j) fb' =
      run_schedule w h fov
        (concat (map (\<lambda>j. map (Pair j) [0 ..< size_t_of w]) [Suc j ..< size_t_of h])) fb'" for fb'
    using Suc(1)[of "j + 1" fb'] Suc(2) by simp
  show ?case
    using j
    by (subst render_outer.simps)
       (simp add: upt_conv_Cons IH run_schedule_append render_inner_schedule split: sum.splits)
qed

lemma render_framebuffer_is_schedule:
  "render_framebuffer w h fov = render_framebuffer_omp (omp_iteration_space w h) w h fov"
  by (simp add: render_framebuffer_def render_framebuffer_omp_def omp_iteration_space_def
      render_outer_schedule cong: sum.case_cong)

lemma size_t_wrap_id: "n < 2 ^ 64 \<Longrightarrow> size_t_wrap n = n"
  by (simp add: size_t_wrap_def)

lemma size_t_of_nonneg: "0 \<le> k \<Longrightarrow> k < 2 ^ 64 \<Longrightarrow> size_t_of k = nat k"
  by (simp add: size_t_of_def)

lemma size_t_of_zero: "size_t_of 0 = 0"
  by (simp add: size_t_of_def)

lemma row_major_index:
  fixes i j W :: nat
  assumes "i < W" "j < H"
  shows "i + j * W < W * H"
proof -
  have "i + j * W < W + j * W" using assms by simp
  also have "\<dots> = (Suc j) * W" by simp
  also have "\<dots> \<le> H * W" using assms by (intro mult_le_mono1) simp
  finally show ?thesis by (simp add: mult.commute)
qed

lemma run_schedule_result:
  assumes "\<And>j i. (j, i) \<in> set sched \<Longrightarrow> i < size_t_of w \<and> i + j * size_t_of w < length fb"
    and "length fb < 2 ^ 64"
  shows "\<exists>fb'. run_schedule w h fov sched fb = Inr fb' \<and> length fb' = length fb \<and>
           (\<forall>k<length fb. fb' ! k =
              (if k \<in> (\<lambda>(j, i). i + j * size_t_of w) ` set sched
               then render_pixel w h fov (k div size_t_of w) (k mod size_t_of w)
               else fb ! k))"
  using assms
proof (induction sched arbitrary: fb)
  case Nil
  then show ?case by simp
next
  case (Cons x sched)
  obtain j i where x: "x = (j, i)" by (cases x)
  let ?W = "size_t_of w"
  let ?idx = "i + j * ?W"
  have ji: "i < ?W" "?idx < length fb" using Cons.prems(1)[of j i] x by auto
  have wrap: "size_t_wrap ?idx = ?idx"
    using ji Cons.prems(2) by (intro size_t_wrap_id) simp
  define fb1 where "fb1 = fb[?idx := render_pixel w h fov j i]"
  have len1: "length fb1 = length fb" by (simp add: fb1_def)
  have step: "run_schedule w h fov (x # sched) fb = run_schedule w h fov sched fb1"
    using ji by (simp add: x wrap vector_set_def fb1_def)
  have "\<And>j i. (j, i) \<in> set sched \<Longrightarrow> i < ?W \<and> i + j * ?W < length fb1"
    using Cons.prems(1) unfolding len1 by (meson list.set_intros(2))
  from Cons.IH[OF this] Cons.prems(2) len1
  obtain fb' where fb': "run_schedule w h fov sched fb1 = Inr fb'" "length fb' = length fb1"
    "\<forall>k<length fb1. fb' ! k =
              (if k \<in> (\<lambda>(j, i). i + j * ?W) ` set sched
               then render_pixel w h fov (k div ?W) (k mod ?W)
               else fb1 ! k)"
    by auto
  have dm: "?idx div ?W = j" "?idx mod ?W = i" using ji by simp_all
  have "fb' ! k =
              (if k \<in> (\<lambda>(j, i). i + j * ?W) ` set (x # sched)
               then render_pixel w h fov (k div ?W) (k mod ?W)
               else fb ! k)" if k: "k < length fb" for k
  proof (cases "k = ?idx")
    case True
    then show ?thesis
      using fb'(3) k ji dm by (auto simp: len1 x fb1_def)
  next
    case False
    then show ?thesis
      using fb'(3) k by (auto simp: len1 x fb1_def)
  qed
  then show ?case
    using fb'(1,2) len1 step by auto
qed

lemma iteration_space_set:
  "set (omp_iteration_space w h) = {(j, i). j < size_t_of h \<and> i < size_t_of w}"
  by (auto simp: omp_iteration_space_def)

lemma schedule_covers:
  fixes W H :: nat
  assumes "k < W * H"
  shows "k \<in> (\<lambda>(j, i). i + j * W) ` {(j, i). j < H \<and> i < W}"
proof -
  have W: "0 < W" using assms by (cases W) auto
  have "k div W < H" using assms by (simp add: less_mult_imp_div_less mult.commute)
  moreover have "k mod W < W" using W by simp
  moreover have "k = k mod W + k div W * W" by simp
  ultimately show ?thesis by (intro image_eqI[where x = "(k div W, k mod W)"]) auto
qed

lemma render_omp_positive:
  assumes w: "0 < w" and h: "0 < h" and r: "in_int_range (w * h)"
    and s: "set sched = set (omp_iteration_space w h)"
  shows "render_framebuffer_omp sched w h fov =
           Inr (map (\<lambda>k. render_pixel w h fov (k div nat w) (k mod nat w)) [0 ..< nat (w * h)])"
proof -
  have wh: "w * h < 2 ^ 31" using r by (simp add: in_int_range_def)
  have "w * 1 \<le> w * h" using w h by (intro mult_left_mono) auto
  then have "w < 2 ^ 64" using wh by simp
  then have W: "size_t_of w = nat w" using w by (intro size_t_of_nonneg) auto
  have "1 * h \<le> w * h" using w h by (intro mult_right_mono) auto
  then have "h < 2 ^ 64" using wh by simp
  then have H: "size_t_of h = nat h" using h by (intro size_t_of_nonneg) auto
  define fb where "fb = replicate (nat (w * h)) \<lparr>vx = 0, vy = 0, vz = 0\<rparr>"
  have len: "length fb = nat w * nat h"
    using w h by (simp add: fb_def nat_mult_distrib)
  have lt: "length fb < 2 ^ 64"
  proof -
    have "nat (w * h) < nat (2 ^ 31)" using wh w h by (intro iffD2[OF nat_less_eq_zless]) auto
    also have "\<dots> < 2 ^ 64" by simp
    finally show ?thesis by (simp add: fb_def)
  qed
  have sset: "set sched = {(j, i). j < nat h \<and> i < nat w}"
    by (simp add: s iteration_space_set W H)
  have inb: "\<And>j i. (j, i) \<in> set sched \<Longrightarrow> i < size_t_of w \<and> i + j * size_t_of w < length fb"
    by (auto simp: sset W len intro: row_major_index)
  from run_schedule_result[OF inb lt, where h = h and fov = fov]
  obtain fb' where fb': "run_schedule w h fov sched fb = Inr fb'" "length fb' = length fb"
    "\<forall>k<length fb. fb' ! k =
              (if k \<in> (\<lambda>(j, i). i + j * size_t_of w) ` set sched
               then render_pixel w h fov (k div size_t_of w) (k mod size_t_of w)
               else fb ! k)"
    by blast
  have "fb' = map (\<lambda>k. render_pixel w h fov (k div nat w) (k mod nat w)) [0 ..< nat (w * h)]"
  proof (rule nth_equalityI)
    show "length fb' = length (map (\<lambda>k. render_pixel w h fov (k div nat w) (k mod nat w)) [0 ..< nat (w * h)])"
      by (simp add: fb'(2) fb_def)
  next
    fix k assume "k < length fb'"
    then have k: "k < nat w * nat h" by (simp add: fb'(2) len)
    then have "k \<in> (\<lambda>(j, i). i + j * size_t_of w) ` set sched"
      unfolding sset W by (rule schedule_covers)
    with fb'(3) k show "fb' ! k = map (\<lambda>k. render_pixel w h fov (k div nat w) (k mod nat w)) [0 ..< nat (w * h)] ! k"
      using w h by (simp add: len W nat_mult_distrib)
  qed
  moreover have "\<not> w * h < 0" using w h by (simp add: mult_less_0_iff)
  then have "render_framebuffer_omp sched w h fov = run_schedule w h fov sched fb"
    using r by (simp add: render_framebuffer_omp_def vector_alloc_def fb_def)
  ultimately show ?thesis using fb'(1) by simp
qed

lemma render_omp_empty:
  assumes "w = 0 \<or> h = 0" and s: "set sched = set (omp_iteration_space w h)"
  shows "render_framebuffer_omp sched w h fov = Inr []"
proof -
  have "set sched = {}"
    using assms(1) by (auto simp: s iteration_space_set size_t_of_zero)
  then have "sched = []" by simp
  moreover have "w * h = 0" using assms(1) by auto
  ultimately show ?thesis
    by (simp add: render_framebuffer_omp_def vector_alloc_def in_int_range_def del: mult_eq_0_iff)
qed

lemma render_omp_negative:
  assumes "w * h < 0"
  shows "render_framebuffer_omp sched w h fov =
           (if in_int_range (w * h) then Inl Length_Error else Inl Signed_Overflow)"
  using assms by (simp add: render_framebuffer_omp_def vector_alloc_def)

text \<open>
  Claim C2, as the program has it. \<^verbatim>\<open>render_framebuffer\<close> validates nothing and has no
  condition for invalid parameters. With \<open>width = 0\<close> or \<open>height = 0\<close> it returns the empty
  framebuffer; with a negative product \<open>width * height\<close> the only failure is the length
  error of the vector constructor; with positive width and height whose product is an
  \<^verbatim>\<open>int\<close>, no operation fails and every one of the \<open>width * height\<close> entries is the colour
  of its pixel.
\<close>

theorem render_framebuffer_no_validation:
  "(width = 0 \<or> height = 0 \<longrightarrow> render_framebuffer width height fov = Inr []) \<and>
   (width * height < 0 \<and> in_int_range (width * height) \<longrightarrow>
      render_framebuffer width height fov = Inl Length_Error) \<and>
   (0 < width \<and> 0 < height \<and> in_int_range (width * height) \<longrightarrow>
      render_framebuffer width height fov =
        Inr (map (\<lambda>k. render_pixel width height fov (k div nat width) (k mod nat width))
               [0 ..< nat (width * height)]))"
  unfolding render_framebuffer_is_schedule
  by (intro conjI impI)
     (simp_all add: render_omp_empty render_omp_negative render_omp_positive)

text \<open>The three cases at \<open>0 \<times> 1\<close>, \<open>-1 \<times> 1\<close> and \<open>1 \<times> 1\<close>.\<close>

theorem render_framebuffer_no_validation_witness:
  "render_framebuffer 0 1 1 = Inr [] \<and>
   render_framebuffer (- 1) 1 1 = Inl Length_Error \<and>
   render_framebuffer 1 1 1 = Inr [render_pixel 1 1 1 0 0]"
  using render_framebuffer_no_validation[of 0 1 1]
    render_framebuffer_no_validation[of "- 1" 1 1]
    render_framebuffer_no_validation[of 1 1 1]
  by (simp add: in_int_range_def)

text \<open>
  Claim C2, as stated, fails: \<open>width = 0\<close> is not rejected. The allocation has length
  \<open>0\<close>, the inner loop has no iteration, and the empty framebuffer is returned.
\<close>

theorem render_framebuffer_unvalidated_counterexample:
  "render_framebuffer 0 1 1 = Inr []"
  by (simp add: render_framebuffer_def in_int_range_def vector_alloc_def size_t_of_def
      render_outer.simps render_inner.simps)

section \<open>The pixel encoder\<close>

lemma length_encode_pixels: "length (encode_pixels cs) = 3 * length cs"
  by (induction cs) (simp_all add: encode_pixels_def)

lemma encode_pixels_snoc:
  "encode_pixels (cs @ [c]) =
     encode_pixels cs @ [encode_channel (vx c), encode_channel (vy c), encode_channel (vz c)]"
  by (simp add: encode_pixels_def)

lemma to_uint8_encode: "to_uint8 (max 0 (min 255 (c * 255))) = encode_channel c"
  by (simp add: to_uint8_def encode_channel_def)

lemma write_pixel:
  fixes A R :: "8 word list"
  assumes "length A = m"
  shows "(A @ 0 # 0 # 0 # R)[m := r, m + 1 := g, m + 2 := b] = (A @ [r, g, b]) @ R"
  using assms by (simp add: list_update_append)

lemma convert_step:
  assumes k: "k < length fb" and n: "length fb * 3 < 2 ^ 64"
    and px: "px = encode_pixels (take k fb) @ replicate (3 * (length fb - k)) 0"
    and i: "i < size_t_of w" and idx: "i + j * size_t_of w = k"
  shows "convert_inner fb w h j i px =
     convert_inner fb w h j (i + 1)
       (encode_pixels (take (Suc k) fb) @ replicate (3 * (length fb - Suc k)) 0)"
proof -
  let ?c = "fb ! k"
  have k64: "k < 2 ^ 64" "k * 3 < 2 ^ 64" "k * 3 + 1 < 2 ^ 64" "k * 3 + 2 < 2 ^ 64"
    using k n by simp_all
  have rd: "vector_get fb (size_t_wrap (i + j * size_t_of w)) = Inr ?c"
    using k k64 by (simp add: idx vector_get_def size_t_wrap_id)
  have pi: "size_t_wrap ((j * size_t_of w + i) * 3) = k * 3"
    using k64 idx by (simp add: size_t_wrap_id add.commute)
  have rep: "replicate (3 * (length fb - k)) (0 :: 8 word) =
      0 # 0 # 0 # replicate (3 * (length fb - Suc k)) 0"
  proof -
    have "3 * (length fb - k) = Suc (Suc (Suc (3 * (length fb - Suc k))))" using k by simp
    then show ?thesis by (simp only: replicate_Suc)
  qed
  have lenA: "length (encode_pixels (take k fb)) = k * 3"
    using k by (simp add: length_encode_pixels)
  have lenpx: "length px = length fb * 3"
    using k by (simp add: px length_encode_pixels)
  have upd: "px[k * 3 := encode_channel (vx ?c), k * 3 + 1 := encode_channel (vy ?c),
                k * 3 + 2 := encode_channel (vz ?c)] =
        encode_pixels (take (Suc k) fb) @ replicate (3 * (length fb - Suc k)) 0"
    unfolding px rep write_pixel[OF lenA]
    using k by (simp add: take_Suc_conv_app_nth encode_pixels_snoc)
  have w1: "size_t_wrap (k * 3 + 1) = k * 3 + 1" and w2: "size_t_wrap (k * 3 + 2) = k * 3 + 2"
    using k64 by (simp_all add: size_t_wrap_id)
  have v1: "vector_set px (k * 3) a = Inr (px[k * 3 := a])" for a
    using k by (simp add: vector_set_def lenpx)
  have v2: "vector_set (px[k * 3 := a]) (k * 3 + 1) b = Inr (px[k * 3 := a, k * 3 + 1 := b])"
    for a b using k by (simp add: vector_set_def lenpx)
  have v3: "vector_set (px[k * 3 := a, k * 3 + 1 := b]) (k * 3 + 2) c =
      Inr (px[k * 3 := a, k * 3 + 1 := b, k * 3 + 2 := c])"
    for a b c using k by (simp add: vector_set_def lenpx)
  show ?thesis
    by (subst convert_inner.simps)
       (simp only: i if_True rd pi Let_def to_uint8_encode w1 w2 v1 v2 v3 sum.case upd)
qed

lemma convert_inner_row:
  assumes len: "length fb = size_t_of w * H" and n: "length fb * 3 < 2 ^ 64"
    and j: "j < H" and i: "i \<le> size_t_of w"
    and px: "px = encode_pixels (take (i + j * size_t_of w) fb) @
                  replicate (3 * (length fb - (i + j * size_t_of w))) 0"
  shows "convert_inner fb w h j i px =
     Inr (encode_pixels (take (size_t_of w + j * size_t_of w) fb) @
          replicate (3 * (length fb - (size_t_of w + j * size_t_of w))) 0)"
  using i px
proof (induction "size_t_of w - i" arbitrary: i px)
  case 0
  then have "i = size_t_of w" by simp
  then show ?case using 0 by (subst convert_inner.simps) simp
next
  case (Suc m)
  then have i: "i < size_t_of w" by simp
  have k: "i + j * size_t_of w < length fb"
    unfolding len using i j by (rule row_major_index)
  have "convert_inner fb w h j i px =
     convert_inner fb w h j (i + 1)
       (encode_pixels (take (Suc (i + j * size_t_of w)) fb) @
        replicate (3 * (length fb - Suc (i + j * size_t_of w))) 0)"
    by (rule convert_step[OF k n Suc.prems(2) i refl])
  also have "\<dots> = Inr (encode_pixels (take (size_t_of w + j * size_t_of w) fb) @
          replicate (3 * (length fb - (size_t_of w + j * size_t_of w))) 0)"
    using Suc.hyps(2) i by (intro Suc.hyps(1)) auto
  finally show ?case .
qed

lemma convert_outer_rows:
  assumes len: "length fb = size_t_of w * size_t_of h" and n: "length fb * 3 < 2 ^ 64"
    and j: "j \<le> size_t_of h"
    and px: "px = encode_pixels (take (j * size_t_of w) fb) @
                  replicate (3 * (length fb - j * size_t_of w)) 0"
  shows "convert_outer fb w h j px = Inr (encode_pixels fb)"
  using j px
proof (induction "size_t_of h - j" arbitrary: j px)
  case 0
  then have "j = size_t_of h" by simp
  then show ?case using 0 len by (subst convert_outer.simps) (simp add: mult.commute)
next
  case (Suc m)
  then have j: "j < size_t_of h" by simp
  have row: "convert_inner fb w h j 0 px =
     Inr (encode_pixels (take (size_t_of w + j * size_t_of w) fb) @
          replicate (3 * (length fb - (size_t_of w + j * size_t_of w))) 0)"
    using Suc.prems(2) by (intro convert_inner_row[OF len n j]) auto
  have "convert_outer fb w h (Suc j)
          (encode_pixels (take (Suc j * size_t_of w) fb) @
           replicate (3 * (length fb - Suc j * size_t_of w)) 0) = Inr (encode_pixels fb)"
    using Suc.hyps(2) j by (intro Suc.hyps(1)) auto
  then show ?case
    using j by (subst convert_outer.simps) (simp add: row)
qed

lemma convert_encodes:
  assumes w: "0 \<le> w" and h: "0 \<le> h" and r: "in_int_range (w * h * 3)"
    and len: "length fb = nat (w * h)"
  shows "convert_framebuffer_to_pixels fb w h = Inr (encode_pixels fb)"
proof (cases "w = 0 \<or> h = 0")
  case True
  then have wh: "w * h = 0" by auto
  have fb: "fb = []" using len wh by simp
  have out: "convert_outer [] w h j [] = Inr []" for j
  proof (induction "size_t_of h - j" arbitrary: j)
    case 0
    then show ?case by (subst convert_outer.simps) simp
  next
    case (Suc m)
    have "size_t_of w = 0 \<or> size_t_of h = 0"
      using True by (auto simp: size_t_of_zero)
    with Suc have w0: "size_t_of w = 0" by auto
    have inner: "convert_inner [] w h j 0 [] = Inr []"
      by (subst convert_inner.simps) (simp add: w0)
    have "convert_outer [] w h (Suc j) [] = Inr []"
      using Suc.hyps(2) by (intro Suc.hyps(1)) auto
    then show ?case
      using Suc.hyps(2) by (subst convert_outer.simps) (simp add: inner)
  qed
  show ?thesis
    by (simp add: convert_framebuffer_to_pixels_def wh in_int_range_def vector_alloc_def fb out
        encode_pixels_def del: mult_eq_0_iff)
next
  case False
  then have w0: "0 < w" and h0: "0 < h" using w h by auto
  have r3: "w * h * 3 < 2 ^ 31" using r by (simp add: in_int_range_def)
  have whpos: "0 < w * h" using w0 h0 by simp
  then have wh: "w * h < 2 ^ 31" using r3 by simp
  have "w * 1 \<le> w * h" using w0 h0 by (intro mult_left_mono) auto
  then have "w < 2 ^ 64" using wh by simp
  then have W: "size_t_of w = nat w" using w0 by (intro size_t_of_nonneg) auto
  have "1 * h \<le> w * h" using w0 h0 by (intro mult_right_mono) auto
  then have "h < 2 ^ 64" using wh by simp
  then have H: "size_t_of h = nat h" using h0 by (intro size_t_of_nonneg) auto
  have len': "length fb = size_t_of w * size_t_of h"
    using w0 h0 by (simp add: len W H nat_mult_distrib)
  have "int (length fb * 3) = w * h * 3" using whpos by (simp add: len)
  then have "int (length fb * 3) < 2 ^ 64" using r3 by simp
  then have n: "length fb * 3 < 2 ^ 64" by (metis of_nat_less_iff of_nat_numeral of_nat_power)
  have alloc: "vector_alloc (w * h * 3) (0 :: 8 word) = Inr (replicate (3 * length fb) 0)"
    using whpos by (simp add: vector_alloc_def len nat_mult_distrib mult.commute)
  have "convert_outer fb w h 0 (replicate (3 * length fb) 0) = Inr (encode_pixels fb)"
    by (rule convert_outer_rows[OF len' n]) (simp_all add: encode_pixels_def)
  then show ?thesis
    using r wh whpos
    by (simp add: convert_framebuffer_to_pixels_def in_int_range_def alloc)
qed

lemma encode_channel_value:
  "uint (encode_channel c) = \<lfloor>max 0 (min 255 (c * 255))\<rfloor>"
proof -
  let ?r = "max 0 (min 255 (c * 255))"
  have "0 \<le> ?r" "?r \<le> 255" by simp_all
  then have "0 \<le> \<lfloor>?r\<rfloor>" "\<lfloor>?r\<rfloor> \<le> 255" by (simp_all add: floor_le_iff le_floor_iff)
  then have "\<lfloor>?r\<rfloor> mod 2 ^ LENGTH(8) = \<lfloor>?r\<rfloor>" by simp
  then show ?thesis
    by (simp only: encode_channel_def uint_word_of_int)
qed

lemma encode_pixels_nth:
  "k < length cs \<Longrightarrow>
     encode_pixels cs ! (k * 3) = encode_channel (vx (cs ! k)) \<and>
     encode_pixels cs ! (k * 3 + 1) = encode_channel (vy (cs ! k)) \<and>
     encode_pixels cs ! (k * 3 + 2) = encode_channel (vz (cs ! k))"
proof (induction cs arbitrary: k)
  case Nil
  then show ?case by simp
next
  case (Cons c cs)
  show ?case
  proof (cases k)
    case 0
    then show ?thesis by (simp add: encode_pixels_def)
  next
    case (Suc k')
    then have "k' < length cs" using Cons.prems by simp
    from Cons.IH[OF this] show ?thesis
      by (simp add: Suc encode_pixels_def)
  qed
qed

text \<open>
  Claim C6. For a framebuffer of \<open>width * height\<close> colours, with \<open>width\<close> and \<open>height\<close> not
  negative and the buffer size \<open>width * height * 3\<close> inside the range of \<^verbatim>\<open>int\<close> (the type in
  which the source computes it),
  \<^verbatim>\<open>convert_framebuffer_to_pixels\<close> returns exactly \<open>width * height * 3\<close> bytes: the
  encoding of the colours one after the other, each channel scaled by 255, clamped to
  \<open>[0, 255]\<close> and truncated to a byte (whose value is that floor, with no wrap-around), so
  that the bytes \<open>R, G, B\<close> of the pixel \<open>(i, j)\<close> stand at \<open>(j * width + i) * 3\<close> and the two
  places after it and depend on the colour of that pixel alone.
\<close>

theorem convert_framebuffer_encodes:
  assumes "0 \<le> width" "0 \<le> height" "in_int_range (width * height * 3)"
    and "length framebuffer = nat (width * height)"
  shows "convert_framebuffer_to_pixels framebuffer width height = Inr (encode_pixels framebuffer) \<and>
         length (encode_pixels framebuffer) = nat (width * height * 3) \<and>
         uint (encode_channel c) = \<lfloor>max 0 (min 255 (c * 255))\<rfloor> \<and>
         (\<forall>j<nat height. \<forall>i<nat width.
            encode_pixels framebuffer ! ((j * nat width + i) * 3) =
              encode_channel (vx (framebuffer ! (i + j * nat width))) \<and>
            encode_pixels framebuffer ! ((j * nat width + i) * 3 + 1) =
              encode_channel (vy (framebuffer ! (i + j * nat width))) \<and>
            encode_pixels framebuffer ! ((j * nat width + i) * 3 + 2) =
              encode_channel (vz (framebuffer ! (i + j * nat width))))"
proof (intro conjI allI impI)
  show "convert_framebuffer_to_pixels framebuffer width height = Inr (encode_pixels framebuffer)"
    using assms by (rule convert_encodes)
  show "length (encode_pixels framebuffer) = nat (width * height * 3)"
    using assms(1,2) by (simp add: length_encode_pixels assms(4) nat_mult_distrib)
  show "uint (encode_channel c) = \<lfloor>max 0 (min 255 (c * 255))\<rfloor>"
    by (rule encode_channel_value)
next
  fix j i assume j: "j < nat height" and i: "i < nat width"
  have "i + j * nat width < nat width * nat height" using i j by (rule row_major_index)
  then have k: "i + j * nat width < length framebuffer"
    using assms(1,2) by (simp add: assms(4) nat_mult_distrib)
  have e: "j * nat width + i = i + j * nat width" by simp
  from encode_pixels_nth[OF k]
  show "encode_pixels framebuffer ! ((j * nat width + i) * 3) =
              encode_channel (vx (framebuffer ! (i + j * nat width)))"
    and "encode_pixels framebuffer ! ((j * nat width + i) * 3 + 1) =
              encode_channel (vy (framebuffer ! (i + j * nat width)))"
    and "encode_pixels framebuffer ! ((j * nat width + i) * 3 + 2) =
              encode_channel (vz (framebuffer ! (i + j * nat width)))"
    unfolding e by simp_all
qed

text \<open>
  A \<open>3 \<times> 2\<close> image of six different colours: the bytes come out row by row, three per
  pixel, a channel at \<open>0.5\<close> is truncated to \<open>127\<close>, channels below \<open>0\<close> and above \<open>1\<close> are
  clamped.
\<close>

theorem convert_framebuffer_encodes_witness:
  "(0::int) \<le> 3 \<and> (0::int) \<le> 2 \<and> in_int_range (3 * 2 * 3) \<and>
   length [\<lparr>vx = 1, vy = 0.5, vz = - 2\<rparr>, \<lparr>vx = 0, vy = 0.2, vz = 0.4\<rparr>,
           \<lparr>vx = 0.1, vy = 0.3, vz = 2\<rparr>, \<lparr>vx = 0.6, vy = 0.7, vz = 0.8\<rparr>,
           \<lparr>vx = 0.9, vy = 0.25, vz = 0.75\<rparr>, \<lparr>vx = 0.04, vy = 0.08, vz = 0.12\<rparr>] = nat (3 * 2) \<and>
   convert_framebuffer_to_pixels
     [\<lparr>vx = 1, vy = 0.5, vz = - 2\<rparr>, \<lparr>vx = 0, vy = 0.2, vz = 0.4\<rparr>,
      \<lparr>vx = 0.1, vy = 0.3, vz = 2\<rparr>, \<lparr>vx = 0.6, vy = 0.7, vz = 0.8\<rparr>,
      \<lparr>vx = 0.9, vy = 0.25, vz = 0.75\<rparr>, \<lparr>vx = 0.04, vy = 0.08, vz = 0.12\<rparr>] 3 2 =
     Inr [255, 127, 0,  0, 51, 102,  25, 76, 255,
          153, 178, 204,  229, 63, 191,  10, 20, 30]"
proof -
  define fb where "fb = [\<lparr>vx = 1, vy = 0.5, vz = - 2\<rparr>, \<lparr>vx = 0, vy = 0.2, vz = 0.4\<rparr>,
      \<lparr>vx = 0.1, vy = 0.3, vz = 2\<rparr>, \<lparr>vx = 0.6, vy = 0.7, vz = 0.8\<rparr>,
      \<lparr>vx = 0.9, vy = 0.25, vz = 0.75\<rparr>, \<lparr>vx = 0.04, vy = 0.08, vz = 0.12 :: real\<rparr>]"
  have h: "(0::int) \<le> 3" "(0::int) \<le> 2" "in_int_range (3 * 2 * 3)"
    "length fb = nat (3 * 2)"
    by (simp_all add: in_int_range_def fb_def)
  have e: "encode_pixels fb = [255, 127, 0,  0, 51, 102,  25, 76, 255,
          153, 178, 204,  229, 63, 191,  10, 20, 30]"
    by (simp add: encode_pixels_def encode_channel_def fb_def)
  from convert_framebuffer_encodes[OF h(1) h(2) h(3) h(4)]
  have "convert_framebuffer_to_pixels fb 3 2 = Inr (encode_pixels fb)"
    by (rule conjunct1)
  then show ?thesis
    unfolding e using h unfolding fb_def by blast
qed

text \<open>
  Without the bound on \<open>width * height * 3\<close> the statement fails: for a framebuffer of
  \<open>30000 * 30000\<close> entries the entry count is an \<^verbatim>\<open>int\<close>, but the buffer size
  \<^verbatim>\<open>width * height * 3\<close> overflows \<^verbatim>\<open>int\<close>, and no list of bytes is returned.
\<close>

theorem convert_framebuffer_overflow_counterexample:
  "length (replicate 900000000 \<lparr>vx = 0, vy = 0, vz = 0\<rparr>) = nat (30000 * 30000) \<and>
   in_int_range (30000 * 30000) \<and>
   convert_framebuffer_to_pixels (replicate 900000000 \<lparr>vx = 0, vy = 0, vz = 0\<rparr>) 30000 30000
     = Inl Signed_Overflow"
  by (simp add: convert_framebuffer_to_pixels_def in_int_range_def)

section \<open>Rendering is independent of the schedule\<close>

text \<open>
  Claim C5. The pixel buffer is a function of \<open>(width, height, fov)\<close> alone: whatever the
  order in which the parallel loop lets the pixel bodies take effect, two renderings
  give the same bytes, and they are the bytes of the sequential loops.
\<close>

theorem render_schedule_independent:
  assumes "0 \<le> width" "0 \<le> height"
    and s1: "set s1 = set (omp_iteration_space width height)"
    and s2: "set s2 = set (omp_iteration_space width height)"
  shows "render_pixels_omp s1 width height fov = render_pixels_omp s2 width height fov \<and>
         render_pixels_omp s1 width height fov = render_pixels width height fov"
proof -
  have "render_framebuffer_omp s width height fov =
        render_framebuffer_omp (omp_iteration_space width height) width height fov"
    if s: "set s = set (omp_iteration_space width height)" for s
  proof (cases "in_int_range (width * height)")
    case False
    then show ?thesis by (simp add: render_framebuffer_omp_def)
  next
    case r: True
    show ?thesis
    proof (cases "width = 0 \<or> height = 0")
      case True
      then show ?thesis using s by (simp add: render_omp_empty)
    next
      case False
      then have "0 < width" "0 < height" using assms(1,2) by auto
      then show ?thesis using s r by (simp add: render_omp_positive)
    qed
  qed
  from this[OF s1] this[OF s2] show ?thesis
    by (simp add: render_pixels_omp_def render_pixels_def render_framebuffer_is_schedule)
qed

text \<open>A \<open>1 \<times> 2\<close> image, rendered bottom row first and with a pixel rendered twice.\<close>

theorem render_schedule_independent_witness:
  "(0::int) \<le> 1 \<and> (0::int) \<le> 2 \<and>
   set [(1, 0), (0, 0)] = set (omp_iteration_space 1 2) \<and>
   set [(0, 0), (1, 0), (0, 0)] = set (omp_iteration_space 1 2) \<and>
   render_pixels_omp [(1, 0), (0, 0)] 1 2 1 = render_pixels_omp [(0, 0), (1, 0), (0, 0)] 1 2 1 \<and>
   render_pixels_omp [(1, 0), (0, 0)] 1 2 1 = render_pixels 1 2 1"
proof -
  have sp: "omp_iteration_space 1 2 = [(0, 0), (1, 0)]"
    by (simp add: omp_iteration_space_def size_t_of_def upt_conv_Cons)
  have h: "(0::int) \<le> 1" "(0::int) \<le> 2"
    "set [(1, 0), (0, 0)] = set (omp_iteration_space 1 2)"
    "set [(0, 0), (1, 0), (0, 0)] = set (omp_iteration_space 1 2)"
    by (auto simp: sp)
  from render_schedule_independent[OF h, of 1] h show ?thesis by blast
qed

section \<open>Rounding\<close>

subsection \<open>Rounding to the nearest integer\<close>

lemma powr_powi: "2 powr real_of_int k = (2 :: real) powi k"
  by (simp add: powr_real_of_int power_int_def power_inverse inverse_eq_divide power_divide)

lemma floor_log2_bounds:
  assumes "x \<noteq> 0"
  shows "2 powi \<lfloor>log 2 \<bar>x\<bar>\<rfloor> \<le> \<bar>x\<bar>" and "\<bar>x\<bar> < 2 powi (\<lfloor>log 2 \<bar>x\<bar>\<rfloor> + 1)"
proof -
  have "0 < \<bar>x\<bar>" using assms by simp
  from floor_log_eq_powr_iff[OF this, of 2 "\<lfloor>log 2 \<bar>x\<bar>\<rfloor>"]
  have "2 powr real_of_int \<lfloor>log 2 \<bar>x\<bar>\<rfloor> \<le> \<bar>x\<bar> \<and> \<bar>x\<bar> < 2 powr real_of_int (\<lfloor>log 2 \<bar>x\<bar>\<rfloor> + 1)"
    by simp
  then show "2 powi \<lfloor>log 2 \<bar>x\<bar>\<rfloor> \<le> \<bar>x\<bar>" and "\<bar>x\<bar> < 2 powi (\<lfloor>log 2 \<bar>x\<bar>\<rfloor> + 1)"
    unfolding powr_powi by simp_all
qed

lemma floor_log2_eq:
  assumes "2 powi e \<le> \<bar>x\<bar>" "\<bar>x\<bar> < 2 powi (e + 1)"
  shows "\<lfloor>log 2 \<bar>x\<bar>\<rfloor> = e"
proof -
  have "0 < (2 :: real) powi e" by simp
  then have "0 < \<bar>x\<bar>" using assms(1) by linarith
  from floor_log_eq_powr_iff[OF this, of 2 e] assms show ?thesis
    unfolding powr_powi by simp
qed

lemma rne_cases: "rne y = \<lfloor>y\<rfloor> \<or> rne y = \<lfloor>y\<rfloor> + 1"
  by (simp add: rne_def Let_def)

lemma rne_error: "\<bar>of_int (rne y) - y\<bar> \<le> 1 / 2"
  unfolding rne_def Let_def by (auto split: if_splits)

lemma rne_of_int [simp]: "rne (of_int m) = m"
  by (simp add: rne_def)

lemma rne_near:
  assumes "of_int m - 1 / 2 < y" "y < of_int m + 1 / 2"
  shows "rne y = m"
proof -
  have "\<bar>of_int (rne y) - y\<bar> \<le> 1 / 2" by (rule rne_error)
  then have "\<bar>of_int (rne y) - (of_int m :: real)\<bar> < 1" using assms by linarith
  then have "\<bar>rne y - m\<bar> < 1" by (metis of_int_1 of_int_abs of_int_diff of_int_less_iff)
  then show ?thesis by simp
qed

lemma rne_tie_even:
  assumes "y = of_int m + 1 / 2 \<or> y = of_int m - 1 / 2" "even m"
  shows "rne y = m"
proof -
  from assms(1) show ?thesis
  proof
    assume y: "y = of_int m + 1 / 2"
    then have "\<lfloor>y\<rfloor> = m" by (intro floor_unique) auto
    then show ?thesis using y assms(2) by (simp add: rne_def Let_def)
  next
    assume y: "y = of_int m - 1 / 2"
    then have "\<lfloor>y\<rfloor> = m - 1" by (intro floor_unique) auto
    then show ?thesis using y assms(2) by (simp add: rne_def Let_def)
  qed
qed

lemma rne_mono:
  assumes "y \<le> z"
  shows "rne y \<le> rne z"
proof (rule ccontr)
  assume "\<not> rne y \<le> rne z"
  then have gt: "rne z + 1 \<le> rne y" by simp
  have ey: "\<bar>of_int (rne y) - y\<bar> \<le> 1 / 2" and ez: "\<bar>of_int (rne z) - z\<bar> \<le> 1 / 2"
    by (rule rne_error)+
  from gt have "(of_int (rne z) :: real) + 1 \<le> of_int (rne y)"
    by (metis of_int_1 of_int_add of_int_le_iff)
  with ey ez assms have "y = z" by linarith
  with \<open>\<not> rne y \<le> rne z\<close> show False by simp
qed

lemma rne_ge_int: "of_int m \<le> y \<Longrightarrow> m \<le> rne y"
  using rne_mono[of "of_int m" y] by simp

lemma rne_le_int: "y \<le> of_int m \<Longrightarrow> rne y \<le> m"
  using rne_mono[of y "of_int m"] by simp

lemma rne_minus: "rne (- y) = - rne y"
proof (cases "y = of_int \<lfloor>y\<rfloor>")
  case True
  then obtain m where "y = of_int m" by metis
  then show ?thesis by (simp flip: of_int_minus)
next
  case False
  then have fl: "\<lfloor>- y\<rfloor> = - \<lfloor>y\<rfloor> - 1"
    by (intro floor_unique) (simp_all, linarith+)
  show ?thesis
    unfolding rne_def Let_def fl using False
    by (auto split: if_splits)
qed

subsection \<open>Sign, monotonicity and exponent of a rounded number\<close>

lemma fl_quantum_pos: "0 < fl_quantum p emin x"
  by (simp add: fl_quantum_def)

lemma fl_exponent_minus [simp]: "fl_exponent emin (- x) = fl_exponent emin x"
  by (simp add: fl_exponent_def)

lemma fl_quantum_minus [simp]: "fl_quantum p emin (- x) = fl_quantum p emin x"
  by (simp add: fl_quantum_def)

lemma fl_round_zero [simp]: "fl_round p emin 0 = 0"
  by (simp add: fl_round_def)

lemma fl_round_minus: "fl_round p emin (- x) = - fl_round p emin x"
  by (simp add: fl_round_def rne_minus)

lemma fl_round_nonneg: "0 \<le> x \<Longrightarrow> 0 \<le> fl_round p emin x"
proof -
  assume x: "0 \<le> x"
  have "0 \<le> x / fl_quantum p emin x" using x fl_quantum_pos[of p emin x] by simp
  then have "0 \<le> rne (x / fl_quantum p emin x)" using rne_ge_int[of 0] by simp
  then show ?thesis
    using fl_quantum_pos[of p emin x] by (simp add: fl_round_def)
qed

lemma fl_round_nonpos: "x \<le> 0 \<Longrightarrow> fl_round p emin x \<le> 0"
  using fl_round_nonneg[of "- x" p emin] by (simp add: fl_round_minus)

lemma fl_exponent_ge: "emin \<le> fl_exponent emin x"
  by (simp add: fl_exponent_def)

lemma fl_exponent_upper: "x \<noteq> 0 \<Longrightarrow> \<bar>x\<bar> < 2 powi (fl_exponent emin x + 1)"
proof -
  assume "x \<noteq> 0"
  then have "\<bar>x\<bar> < 2 powi (\<lfloor>log 2 \<bar>x\<bar>\<rfloor> + 1)" by (rule floor_log2_bounds)
  also have "\<dots> \<le> 2 powi (fl_exponent emin x + 1)"
    by (intro power_int_increasing) (simp_all add: fl_exponent_def)
  finally show ?thesis .
qed

lemma fl_exponent_lower:
  "2 powi emin \<le> \<bar>x\<bar> \<Longrightarrow> 2 powi (fl_exponent emin x) \<le> \<bar>x\<bar>"
proof -
  assume a: "2 powi emin \<le> \<bar>x\<bar>"
  have "0 < (2 :: real) powi emin" by simp
  with a have "0 < \<bar>x\<bar>" by linarith
  then have x: "x \<noteq> 0" by simp
  show ?thesis
  proof (cases "emin \<le> \<lfloor>log 2 \<bar>x\<bar>\<rfloor>")
    case True
    then have "fl_exponent emin x = \<lfloor>log 2 \<bar>x\<bar>\<rfloor>" by (simp add: fl_exponent_def)
    then show ?thesis using floor_log2_bounds(1)[OF x] by simp
  next
    case False
    then have "fl_exponent emin x = emin" by (simp add: fl_exponent_def)
    then show ?thesis using a by simp
  qed
qed

lemma fl_exponent_eq:
  assumes "2 powi e \<le> \<bar>x\<bar>" "\<bar>x\<bar> < 2 powi (e + 1)" "emin \<le> e"
  shows "fl_exponent emin x = e"
  using floor_log2_eq[OF assms(1,2)] assms(3) by (simp add: fl_exponent_def)

lemma fl_exponent_subnormal:
  assumes "x \<noteq> 0" "\<bar>x\<bar> < 2 powi emin"
  shows "fl_exponent emin x = emin"
proof -
  have "\<not> emin < \<lfloor>log 2 \<bar>x\<bar>\<rfloor>"
  proof
    assume "emin < \<lfloor>log 2 \<bar>x\<bar>\<rfloor>"
    then have "(2 :: real) powi emin \<le> 2 powi \<lfloor>log 2 \<bar>x\<bar>\<rfloor>"
      by (intro power_int_increasing) simp_all
    with floor_log2_bounds(1)[OF assms(1)] assms(2) show False by linarith
  qed
  then show ?thesis by (simp add: fl_exponent_def)
qed

lemma two_powi_split: "(2 :: real) powi (e + 1) = 2 ^ p * 2 powi (e - int p + 1)"
proof -
  have "(2 :: real) powi (e + 1) = 2 powi (int p + (e - int p + 1))" by simp
  also have "\<dots> = 2 powi (int p) * 2 powi (e - int p + 1)"
    by (rule power_int_add) simp
  finally show ?thesis by simp
qed

lemma two_powi_split_pred: "0 < p \<Longrightarrow> (2 :: real) powi e = 2 ^ (p - 1) * 2 powi (e - int p + 1)"
proof -
  assume p: "0 < p"
  have "(2 :: real) powi e = 2 powi (int (p - 1) + (e - int p + 1))" using p by (simp add: of_nat_diff)
  also have "\<dots> = 2 powi (int (p - 1)) * 2 powi (e - int p + 1)"
    by (rule power_int_add) simp
  finally show ?thesis by simp
qed

lemma fl_round_upper:
  assumes "0 < x"
  shows "fl_round p emin x \<le> 2 powi (fl_exponent emin x + 1)"
proof -
  let ?q = "fl_quantum p emin x"
  have q: "0 < ?q" by (rule fl_quantum_pos)
  have "x < 2 ^ p * ?q"
    using fl_exponent_upper[of x emin] assms
    unfolding fl_quantum_def two_powi_split[symmetric] by simp
  then have "x / ?q \<le> of_int (2 ^ p)" using q by (simp add: field_simps)
  then have "rne (x / ?q) \<le> 2 ^ p" by (rule rne_le_int)
  then have "of_int (rne (x / ?q)) \<le> (2 :: real) ^ p"
    by (metis of_int_le_iff of_int_numeral of_int_power)
  then have "of_int (rne (x / ?q)) * ?q \<le> 2 ^ p * ?q"
    using q by (intro mult_right_mono) simp_all
  then show ?thesis
    using assms unfolding fl_round_def fl_quantum_def two_powi_split[symmetric] by simp
qed

lemma fl_round_lower:
  assumes "0 < x" "2 powi emin \<le> x" "0 < p"
  shows "2 powi (fl_exponent emin x) \<le> fl_round p emin x"
proof -
  let ?q = "fl_quantum p emin x"
  have q: "0 < ?q" by (rule fl_quantum_pos)
  have "2 ^ (p - 1) * ?q \<le> x"
    using fl_exponent_lower[of emin x] assms
    unfolding fl_quantum_def two_powi_split_pred[OF assms(3), symmetric] by simp
  then have "of_int (2 ^ (p - 1)) \<le> x / ?q" using q by (simp add: field_simps)
  then have "2 ^ (p - 1) \<le> rne (x / ?q)" by (rule rne_ge_int)
  then have "(2 :: real) ^ (p - 1) \<le> of_int (rne (x / ?q))"
    by (metis of_int_le_iff of_int_numeral of_int_power)
  then have "2 ^ (p - 1) * ?q \<le> of_int (rne (x / ?q)) * ?q"
    using q by (intro mult_right_mono) simp_all
  then show ?thesis
    using assms(1) unfolding fl_round_def fl_quantum_def two_powi_split_pred[OF assms(3), symmetric] by simp
qed

lemma fl_round_mono_pos:
  assumes "0 < x" "x \<le> y" "0 < p"
  shows "fl_round p emin x \<le> fl_round p emin y"
proof -
  have y: "0 < y" using assms by simp
  have le: "fl_exponent emin x \<le> fl_exponent emin y"
  proof -
    have "log 2 \<bar>x\<bar> \<le> log 2 \<bar>y\<bar>" using assms y by simp
    then have "\<lfloor>log 2 \<bar>x\<bar>\<rfloor> \<le> \<lfloor>log 2 \<bar>y\<bar>\<rfloor>" by (rule floor_mono)
    then show ?thesis by (simp add: fl_exponent_def)
  qed
  show ?thesis
  proof (cases "fl_exponent emin x = fl_exponent emin y")
    case True
    then have q: "fl_quantum p emin x = fl_quantum p emin y" by (simp add: fl_quantum_def)
    have "x / fl_quantum p emin y \<le> y / fl_quantum p emin y"
      using assms fl_quantum_pos[of p emin y] by (simp add: divide_right_mono)
    then have "rne (x / fl_quantum p emin y) \<le> rne (y / fl_quantum p emin y)" by (rule rne_mono)
    then have "of_int (rne (x / fl_quantum p emin y)) * fl_quantum p emin y
        \<le> of_int (rne (y / fl_quantum p emin y)) * fl_quantum p emin y"
      using fl_quantum_pos[of p emin y] by (intro mult_right_mono) simp_all
    then show ?thesis using assms(1) y by (simp add: fl_round_def q)
  next
    case False
    with le have lt: "fl_exponent emin x + 1 \<le> fl_exponent emin y" by simp
    have "emin < fl_exponent emin y" using lt fl_exponent_ge[of emin x] by linarith
    then have ey: "fl_exponent emin y = \<lfloor>log 2 \<bar>y\<bar>\<rfloor>" by (simp add: fl_exponent_def max_def split: if_splits)
    have "2 powi emin \<le> (2 :: real) powi (fl_exponent emin y)"
      by (intro power_int_increasing fl_exponent_ge) simp
    also have "\<dots> \<le> \<bar>y\<bar>" unfolding ey using y floor_log2_bounds(1)[of y] by simp
    finally have ymin: "2 powi emin \<le> y" using y by simp
    have "fl_round p emin x \<le> 2 powi (fl_exponent emin x + 1)"
      by (rule fl_round_upper[OF assms(1)])
    also have "\<dots> \<le> 2 powi (fl_exponent emin y)"
      using lt by (intro power_int_increasing) simp_all
    also have "\<dots> \<le> fl_round p emin y"
      by (rule fl_round_lower[OF y ymin assms(3)])
    finally show ?thesis .
  qed
qed

lemma fl_round_mono:
  assumes "x \<le> y" "0 < p"
  shows "fl_round p emin x \<le> fl_round p emin y"
proof -
  consider "0 < x" | "x \<le> 0" "0 \<le> y" | "y < 0" by linarith
  then show ?thesis
  proof cases
    case 1
    then show ?thesis using assms by (intro fl_round_mono_pos) auto
  next
    case 2
    then show ?thesis
      using fl_round_nonpos[of x p emin] fl_round_nonneg[of y p emin] by linarith
  next
    case 3
    then have "fl_round p emin (- y) \<le> fl_round p emin (- x)"
      using assms by (intro fl_round_mono_pos) auto
    then show ?thesis by (simp add: fl_round_minus)
  qed
qed

subsection \<open>Representable numbers, idempotence and the rounding error\<close>

lemma fl_round_int_multiple:
  assumes "x / fl_quantum p emin x = of_int m"
  shows "fl_round p emin x = x"
proof (cases "x = 0")
  case True
  then show ?thesis by simp
next
  case False
  have q: "0 < fl_quantum p emin x" by (rule fl_quantum_pos)
  have "x = of_int m * fl_quantum p emin x" using assms q by (simp add: field_simps)
  then show ?thesis using False by (simp add: fl_round_def assms)
qed

lemma two_powi_diff_nat:
  assumes "j \<le> k"
  shows "(2 :: real) powi k = 2 ^ nat (k - j) * 2 powi j"
proof -
  define n where "n = nat (k - j)"
  have k: "k = int n + j" using assms by (simp add: n_def)
  have "(2 :: real) powi (int n + j) = 2 powi (int n) * 2 powi j" by (rule power_int_add) simp
  then show ?thesis unfolding n_def[symmetric] k by simp
qed

lemma fl_round_repr:
  assumes x: "x = of_int m * 2 powi k" and m: "\<bar>m\<bar> < 2 ^ p" and k: "emin - int p + 1 \<le> k"
  shows "fl_round p emin x = x"
proof (cases "x = 0")
  case True
  then show ?thesis by simp
next
  case False
  define e where "e = fl_exponent emin x"
  have "e - int p + 1 \<le> k"
  proof (cases "e = emin")
    case True
    then show ?thesis using k by simp
  next
    case ne: False
    then have "2 powi emin \<le> \<bar>x\<bar> \<or> e = emin"
      unfolding e_def fl_exponent_def
      using floor_log2_bounds(1)[OF False] power_int_increasing[of emin "\<lfloor>log 2 \<bar>x\<bar>\<rfloor>" "2::real"]
      by (auto simp: max_def split: if_splits)
    with ne have "2 powi emin \<le> \<bar>x\<bar>" by simp
    then have lo: "2 powi e \<le> \<bar>x\<bar>" unfolding e_def by (rule fl_exponent_lower)
    have "\<bar>x\<bar> = of_int \<bar>m\<bar> * 2 powi k" by (simp add: x abs_mult)
    also have "\<dots> < 2 ^ p * 2 powi k"
    proof -
      have "(of_int \<bar>m\<bar> :: real) < 2 ^ p" using m
        by (metis of_int_less_iff of_int_numeral of_int_power)
      then show ?thesis by (intro mult_strict_right_mono) simp_all
    qed
    also have "\<dots> = 2 powi (int p + k)" by (simp add: power_int_add)
    finally have "(2 :: real) powi e < 2 powi (int p + k)" using lo by linarith
    then have "e < int p + k"
      by (metis not_le power_int_increasing one_le_numeral not_less)
    then show ?thesis by simp
  qed
  then have "2 powi k = 2 ^ nat (k - (e - int p + 1)) * (2 :: real) powi (e - int p + 1)"
    by (rule two_powi_diff_nat)
  then have "x = of_int m * 2 ^ nat (k - (e - int p + 1)) * fl_quantum p emin x"
    unfolding fl_quantum_def e_def[symmetric] by (simp add: x)
  then have "x / fl_quantum p emin x = of_int m * 2 ^ nat (k - (e - int p + 1))"
    using fl_quantum_pos[of p emin x] by (simp add: field_simps)
  then have "x / fl_quantum p emin x = of_int (m * 2 ^ nat (k - (e - int p + 1)))"
    by simp
  then show ?thesis by (rule fl_round_int_multiple)
qed

lemma fl_round_pow2:
  assumes "emin - int p + 1 \<le> k" "0 < p"
  shows "fl_round p emin (2 powi k) = 2 powi k"
proof -
  have "\<bar>1 :: int\<bar> < 2 ^ p" using assms(2) by (simp add: one_less_power)
  from fl_round_repr[of "2 powi k" 1 k p emin, OF _ this assms(1)] show ?thesis by simp
qed

lemma fl_round_idem:
  assumes "0 < p"
  shows "fl_round p emin (fl_round p emin x) = fl_round p emin x"
proof (cases "x = 0")
  case True
  then show ?thesis by simp
next
  case False
  define e where "e = fl_exponent emin x"
  define q where "q = (2 :: real) powi (e - int p + 1)"
  define m where "m = rne (x / q)"
  have q: "0 < q" by (simp add: q_def)
  have fx: "fl_round p emin x = of_int m * q"
    using False by (simp add: fl_round_def fl_quantum_def e_def q_def m_def)
  have ub: "\<bar>x\<bar> < 2 ^ p * q"
    using fl_exponent_upper[OF False, of emin]
    unfolding q_def e_def two_powi_split[symmetric] .
  then have "\<bar>x\<bar> / q \<le> 2 ^ p" using q by (simp add: field_simps)
  moreover have "\<bar>q\<bar> = q" using q by simp
  ultimately have "\<bar>x / q\<bar> \<le> 2 ^ p" by (simp add: abs_divide)
  then have "x / q \<le> 2 ^ p" "- (2 ^ p) \<le> x / q" by linarith+
  then have h: "x / q \<le> of_int (2 ^ p)" "of_int (- (2 ^ p)) \<le> x / q" by simp_all
  have "m \<le> 2 ^ p" unfolding m_def using h(1) by (rule rne_le_int)
  moreover have "- (2 ^ p) \<le> m" unfolding m_def using h(2) by (rule rne_ge_int)
  ultimately have "m \<le> 2 ^ p" "- (2 ^ p) \<le> m" .
  then have mb: "\<bar>m\<bar> \<le> 2 ^ p" by simp
  show ?thesis
  proof (cases "\<bar>m\<bar> = 2 ^ p")
    case False
    with mb have "\<bar>m\<bar> < 2 ^ p" by simp
    moreover have "emin - int p + 1 \<le> e - int p + 1"
      using fl_exponent_ge[of emin x] by (simp add: e_def)
    ultimately show ?thesis
      unfolding fx q_def by (intro fl_round_repr[OF refl])
  next
    case True
    then have "m = 2 ^ p \<or> m = - (2 ^ p)" by (simp add: abs_if split: if_splits)
    then have "of_int m * q = 2 powi (e + 1) \<or> of_int m * q = - (2 powi (e + 1))"
      unfolding two_powi_split[of e p] q_def by auto
    moreover have "fl_round p emin (2 powi (e + 1)) = 2 powi (e + 1)"
      using fl_exponent_ge[of emin x] assms by (intro fl_round_pow2) (simp_all add: e_def)
    ultimately show ?thesis unfolding fx by (auto simp: fl_round_minus)
  qed
qed

lemma fl_round_error: "\<bar>fl_round p emin x - x\<bar> \<le> fl_quantum p emin x / 2"
proof (cases "x = 0")
  case True
  then show ?thesis using fl_quantum_pos[of p emin x] by simp
next
  case False
  let ?q = "fl_quantum p emin x"
  have q: "0 < ?q" by (rule fl_quantum_pos)
  have "\<bar>of_int (rne (x / ?q)) - x / ?q\<bar> \<le> 1 / 2" by (rule rne_error)
  then have "\<bar>of_int (rne (x / ?q)) - x / ?q\<bar> * ?q \<le> 1 / 2 * ?q"
    using q by (intro mult_right_mono) simp_all
  moreover have "\<bar>of_int (rne (x / ?q)) - x / ?q\<bar> * ?q = \<bar>of_int (rne (x / ?q)) * ?q - x\<bar>"
  proof -
    have "\<bar>of_int (rne (x / ?q)) - x / ?q\<bar> * ?q = \<bar>(of_int (rne (x / ?q)) - x / ?q) * ?q\<bar>"
      using q by (simp add: abs_mult)
    also have "(of_int (rne (x / ?q)) - x / ?q) * ?q = of_int (rne (x / ?q)) * ?q - x"
      using q by (simp add: field_simps)
    finally show ?thesis .
  qed
  ultimately show ?thesis using False by (simp add: fl_round_def)
qed

lemma fl_round_error_le:
  assumes "\<bar>x\<bar> \<le> 2 powi (e + 1)" "emin \<le> e" "0 < p"
  shows "\<bar>fl_round p emin x - x\<bar> \<le> 2 powi (e - int p)"
proof (cases "\<bar>x\<bar> = 2 powi (e + 1)")
  case True
  then have "x = 2 powi (e + 1) \<or> x = - (2 powi (e + 1))" by (auto simp: abs_if split: if_splits)
  moreover have "fl_round p emin (2 powi (e + 1)) = 2 powi (e + 1)"
    using assms by (intro fl_round_pow2) simp_all
  ultimately have "fl_round p emin x = x" by (auto simp: fl_round_minus)
  then show ?thesis by simp
next
  case False
  with assms(1) have lt: "\<bar>x\<bar> < 2 powi (e + 1)" by simp
  show ?thesis
  proof (cases "x = 0")
    case True
    then show ?thesis by simp
  next
    case x: False
    have "fl_exponent emin x \<le> e"
    proof -
      have "2 powi \<lfloor>log 2 \<bar>x\<bar>\<rfloor> \<le> \<bar>x\<bar>" by (rule floor_log2_bounds(1)[OF x])
      with lt have "(2 :: real) powi \<lfloor>log 2 \<bar>x\<bar>\<rfloor> < 2 powi (e + 1)" by linarith
      then have "\<lfloor>log 2 \<bar>x\<bar>\<rfloor> < e + 1"
        by (metis not_le power_int_increasing one_le_numeral not_less)
      then show ?thesis using assms(2) by (simp add: fl_exponent_def)
    qed
    then have "fl_quantum p emin x \<le> 2 powi (e - int p + 1)"
      unfolding fl_quantum_def by (intro power_int_increasing) simp_all
    also have "\<dots> = 2 * 2 powi (e - int p)"
      by (simp add: power_int_add)
    finally have "fl_quantum p emin x / 2 \<le> 2 powi (e - int p)" by simp
    with fl_round_error[of p emin x] show ?thesis by linarith
  qed
qed

lemma fl_round_eval:
  assumes "emin \<le> e" "2 powi e \<le> \<bar>x\<bar>" "\<bar>x\<bar> \<le> 2 powi (e + 1)" "0 < p"
  shows "fl_round p emin x = of_int (rne (x / 2 powi (e - int p + 1))) * 2 powi (e - int p + 1)"
proof (cases "\<bar>x\<bar> = 2 powi (e + 1)")
  case False
  with assms(3) have lt: "\<bar>x\<bar> < 2 powi (e + 1)" by simp
  have "0 < (2 :: real) powi e" by simp
  with assms(2) have "0 < \<bar>x\<bar>" by linarith
  then have x: "x \<noteq> 0" by simp
  have "fl_exponent emin x = e" using assms(2) lt assms(1) by (rule fl_exponent_eq)
  then show ?thesis using x by (simp add: fl_round_def fl_quantum_def)
next
  case True
  then have c: "x = 2 powi (e + 1) \<or> x = - (2 powi (e + 1))" by (auto simp: abs_if split: if_splits)
  have r: "fl_round p emin (2 powi (e + 1)) = 2 powi (e + 1)"
    using assms by (intro fl_round_pow2) simp_all
  have d: "(2 :: real) powi (e + 1) / 2 powi (e - int p + 1) = of_int (2 ^ p)"
    unfolding two_powi_split[of e p] by simp
  from c show ?thesis
  proof
    assume "x = 2 powi (e + 1)"
    then show ?thesis
      unfolding \<open>x = 2 powi (e + 1)\<close> r d rne_of_int
      by (simp add: two_powi_split[of e p])
  next
    assume xx: "x = - (2 powi (e + 1))"
    have "- (2 powi (e + 1)) / 2 powi (e - int p + 1) = (of_int (- (2 ^ p)) :: real)"
      using d by simp
    then show ?thesis
      unfolding xx fl_round_minus r
      by (simp only: rne_of_int) (simp add: two_powi_split[of e p])
  qed
qed

lemma fl_round_abs: "\<bar>fl_round p emin x\<bar> = fl_round p emin \<bar>x\<bar>"
proof (cases "0 \<le> x")
  case True
  then show ?thesis using fl_round_nonneg[of x p emin] by simp
next
  case False
  then have "fl_round p emin x \<le> 0" by (intro fl_round_nonpos) simp
  then show ?thesis using False by (simp add: fl_round_minus abs_if)
qed

lemma fl_round_rel_error:
  assumes "0 < p"
  shows "\<bar>fl_round p emin x - x\<bar> \<le> \<bar>fl_round p emin x\<bar> * 2 powi (- int p) + 2 powi (emin - int p)"
proof (cases "x = 0")
  case True
  then show ?thesis by simp
next
  case False
  define e where "e = fl_exponent emin x"
  have "fl_quantum p emin x = 2 * 2 powi (e - int p)"
    unfolding fl_quantum_def e_def[symmetric]
    using power_int_add[of "2 :: real" 1 "e - int p"] by (simp add: add.commute)
  with fl_round_error[of p emin x]
  have err: "\<bar>fl_round p emin x - x\<bar> \<le> 2 powi (e - int p)" by simp
  have nn: "0 \<le> \<bar>fl_round p emin x\<bar> * 2 powi (- int p)" by simp
  show ?thesis
  proof (cases "e = emin")
    case True
    then have "\<bar>fl_round p emin x - x\<bar> \<le> 2 powi (emin - int p)" using err by simp
    then show ?thesis using nn by linarith
  next
    case ne: False
    have ge: "emin \<le> e" unfolding e_def by (rule fl_exponent_ge)
    have "2 powi emin \<le> \<bar>x\<bar>"
    proof (rule ccontr)
      assume "\<not> 2 powi emin \<le> \<bar>x\<bar>"
      then have "\<bar>x\<bar> < 2 powi emin" by simp
      from fl_exponent_subnormal[OF False this] ne show False by (simp add: e_def)
    qed
    moreover have "0 < \<bar>x\<bar>" using False by simp
    ultimately have "2 powi (fl_exponent emin \<bar>x\<bar>) \<le> fl_round p emin \<bar>x\<bar>"
      using assms by (intro fl_round_lower) simp_all
    moreover have "fl_exponent emin \<bar>x\<bar> = e" by (simp add: e_def fl_exponent_def)
    ultimately have lo: "2 powi e \<le> \<bar>fl_round p emin x\<bar>" by (simp add: fl_round_abs)
    have "(2 :: real) powi (e - int p) = 2 powi e * 2 powi (- int p)"
      using power_int_add[of "2 :: real" e "- int p"] by simp
    also have "\<dots> \<le> \<bar>fl_round p emin x\<bar> * 2 powi (- int p)"
      using lo by (intro mult_right_mono) simp_all
    finally have "\<bar>fl_round p emin x - x\<bar> \<le> \<bar>fl_round p emin x\<bar> * 2 powi (- int p)"
      using err by linarith
    moreover have "0 \<le> (2 :: real) powi (emin - int p)" by simp
    ultimately show ?thesis by linarith
  qed
qed

lemma fl_round_rel_error_arg:
  assumes "0 < p"
  shows "\<bar>fl_round p emin x - x\<bar> \<le> \<bar>x\<bar> * 2 powi (- int p) + 2 powi (emin - int p)"
proof (cases "x = 0")
  case True
  then show ?thesis by simp
next
  case False
  define e where "e = fl_exponent emin x"
  have "fl_quantum p emin x = 2 * 2 powi (e - int p)"
    unfolding fl_quantum_def e_def[symmetric]
    using power_int_add[of "2 :: real" 1 "e - int p"] by (simp add: add.commute)
  with fl_round_error[of p emin x]
  have err: "\<bar>fl_round p emin x - x\<bar> \<le> 2 powi (e - int p)" by simp
  have nn: "0 \<le> \<bar>x\<bar> * 2 powi (- int p)" by simp
  show ?thesis
  proof (cases "e = emin")
    case True
    then have "\<bar>fl_round p emin x - x\<bar> \<le> 2 powi (emin - int p)" using err by simp
    then show ?thesis using nn by linarith
  next
    case ne: False
    have "2 powi emin \<le> \<bar>x\<bar>"
    proof (rule ccontr)
      assume "\<not> 2 powi emin \<le> \<bar>x\<bar>"
      then have "\<bar>x\<bar> < 2 powi emin" by simp
      from fl_exponent_subnormal[OF False this] ne show False by (simp add: e_def)
    qed
    then have lo: "2 powi e \<le> \<bar>x\<bar>" unfolding e_def by (rule fl_exponent_lower)
    have "(2 :: real) powi (e - int p) = 2 powi e * 2 powi (- int p)"
      using power_int_add[of "2 :: real" e "- int p"] by simp
    also have "\<dots> \<le> \<bar>x\<bar> * 2 powi (- int p)"
      using lo by (intro mult_right_mono) simp_all
    finally have "\<bar>fl_round p emin x - x\<bar> \<le> \<bar>x\<bar> * 2 powi (- int p)"
      using err by linarith
    moreover have "0 \<le> (2 :: real) powi (emin - int p)" by simp
    ultimately show ?thesis by linarith
  qed
qed

lemma fl_round_rel_normal:
  assumes "0 < p" "2 powi emin \<le> \<bar>x\<bar>"
  shows "\<bar>fl_round p emin x - x\<bar> \<le> \<bar>x\<bar> * 2 powi (- int p)"
proof -
  define e where "e = fl_exponent emin x"
  have "fl_quantum p emin x = 2 * 2 powi (e - int p)"
    unfolding fl_quantum_def e_def[symmetric]
    using power_int_add[of "2 :: real" 1 "e - int p"] by (simp add: add.commute)
  with fl_round_error[of p emin x]
  have err: "\<bar>fl_round p emin x - x\<bar> \<le> 2 powi (e - int p)" by simp
  have lo: "2 powi e \<le> \<bar>x\<bar>" unfolding e_def using assms(2) by (rule fl_exponent_lower)
  have "(2 :: real) powi (e - int p) = 2 powi e * 2 powi (- int p)"
    using power_int_add[of "2 :: real" e "- int p"] by simp
  also have "\<dots> \<le> \<bar>x\<bar> * 2 powi (- int p)"
    using lo by (intro mult_right_mono) simp_all
  finally show ?thesis using err by linarith
qed

subsection \<open>binary32 and binary64\<close>

lemma two_powi_nat_diff: "(2 :: real) powi (int a - int b) = 2 ^ a / 2 ^ b"
  by (simp add: power_int_diff)

lemma to_float_zero [simp]: "to_float 0 = 0"
  by (simp add: to_float_def)

lemma to_float_minus: "to_float (- x) = - to_float x"
  by (simp add: to_float_def fl_round_minus)

lemma to_float_mono: "x \<le> y \<Longrightarrow> to_float x \<le> to_float y"
  by (simp add: to_float_def fl_round_mono)

lemma to_float_idem [simp]: "to_float (to_float x) = to_float x"
  by (simp add: to_float_def fl_round_idem)

lemma to_float_nonneg: "0 \<le> x \<Longrightarrow> 0 \<le> to_float x"
  by (simp add: to_float_def fl_round_nonneg)

lemma to_float_nonpos: "x \<le> 0 \<Longrightarrow> to_float x \<le> 0"
  by (simp add: to_float_def fl_round_nonpos)

lemma to_float_dyadic:
  assumes "\<bar>m\<bar> < 2 ^ 24" "k \<le> 149"
  shows "to_float (of_int m / 2 ^ k) = of_int m / 2 ^ k"
proof -
  have "of_int m / 2 ^ k = of_int m * (2 :: real) powi (int 0 - int k)"
    unfolding two_powi_nat_diff by simp
  moreover have "- 126 - int 24 + 1 \<le> int 0 - int k" using assms(2) by simp
  ultimately show ?thesis
    unfolding to_float_def using assms(1) by (intro fl_round_repr[where m = m and k = "int 0 - int k"]) simp_all
qed

lemma to_float_int: "\<bar>m\<bar> < 2 ^ 24 \<Longrightarrow> to_float (of_int m) = of_int m"
  using to_float_dyadic[of m 0] by simp

lemma to_float_eval:
  assumes "k \<le> 149" "2 ^ 23 \<le> \<bar>x\<bar> * 2 ^ k" "\<bar>x\<bar> * 2 ^ k \<le> 2 ^ 24"
  shows "to_float x = of_int (rne (x * 2 ^ k)) / 2 ^ k"
proof -
  have e: "(2 :: real) powi (int 23 - int k) = 2 ^ 23 / 2 ^ k"
    and e1: "(2 :: real) powi (int 23 - int k + 1) = 2 ^ 24 / 2 ^ k"
    and q: "(2 :: real) powi (int 23 - int k - int 24 + 1) = 1 / 2 ^ k"
    using two_powi_nat_diff[of 23 k] two_powi_nat_diff[of 24 k] two_powi_nat_diff[of 0 k]
    by simp_all
  have "fl_round 24 (- 126) x =
      of_int (rne (x / 2 powi (int 23 - int k - int 24 + 1))) * 2 powi (int 23 - int k - int 24 + 1)"
  proof (rule fl_round_eval)
    show "- 126 \<le> int 23 - int k" using assms(1) by simp
    show "2 powi (int 23 - int k) \<le> \<bar>x\<bar>" unfolding e using assms(2) by (simp add: field_simps)
    show "\<bar>x\<bar> \<le> 2 powi (int 23 - int k + 1)" unfolding e1 using assms(3) by (simp add: field_simps)
  qed simp
  then show ?thesis unfolding q to_float_def by simp
qed

lemma to_float_near:
  assumes "k \<le> 149" "2 ^ 23 \<le> \<bar>x\<bar> * 2 ^ k" "\<bar>x\<bar> * 2 ^ k \<le> 2 ^ 24"
    and "of_int m - 1 / 2 < x * 2 ^ k" "x * 2 ^ k < of_int m + 1 / 2"
  shows "to_float x = of_int m / 2 ^ k"
  unfolding to_float_eval[OF assms(1,2,3)] rne_near[OF assms(4,5)] ..

lemma to_float_error:
  assumes "\<bar>x\<bar> * 2 ^ k \<le> 2 ^ 24" "k \<le> 149"
  shows "\<bar>to_float x - x\<bar> \<le> 1 / (2 * 2 ^ k)"
proof -
  have e1: "(2 :: real) powi (int 23 - int k + 1) = 2 ^ 24 / 2 ^ k"
    and q: "(2 :: real) powi (int 23 - int k - int 24) = 1 / (2 * 2 ^ k)"
    using two_powi_nat_diff[of 24 k] two_powi_nat_diff[of 0 "Suc k"]
    by simp_all
  have "\<bar>fl_round 24 (- 126) x - x\<bar> \<le> 2 powi (int 23 - int k - int 24)"
  proof (rule fl_round_error_le)
    show "\<bar>x\<bar> \<le> 2 powi (int 23 - int k + 1)" unfolding e1 using assms(1) by (simp add: field_simps)
    show "- 126 \<le> int 23 - int k" using assms(2) by simp
  qed simp
  then show ?thesis unfolding q to_float_def .
qed

lemma to_double_zero [simp]: "to_double 0 = 0"
  by (simp add: to_double_def)

lemma to_double_minus: "to_double (- x) = - to_double x"
  by (simp add: to_double_def fl_round_minus)

lemma to_double_mono: "x \<le> y \<Longrightarrow> to_double x \<le> to_double y"
  by (simp add: to_double_def fl_round_mono)

lemma to_double_idem [simp]: "to_double (to_double x) = to_double x"
  by (simp add: to_double_def fl_round_idem)

lemma to_double_nonneg: "0 \<le> x \<Longrightarrow> 0 \<le> to_double x"
  by (simp add: to_double_def fl_round_nonneg)

lemma to_double_dyadic:
  assumes "\<bar>m\<bar> < 2 ^ 53" "k \<le> 1074"
  shows "to_double (of_int m / 2 ^ k) = of_int m / 2 ^ k"
proof -
  have "of_int m / 2 ^ k = of_int m * (2 :: real) powi (int 0 - int k)"
    unfolding two_powi_nat_diff by simp
  moreover have "- 1022 - int 53 + 1 \<le> int 0 - int k" using assms(2) by simp
  ultimately show ?thesis
    unfolding to_double_def using assms(1) by (intro fl_round_repr[where m = m and k = "int 0 - int k"]) simp_all
qed

lemma to_double_int: "\<bar>m\<bar> < 2 ^ 53 \<Longrightarrow> to_double (of_int m) = of_int m"
  using to_double_dyadic[of m 0] by simp

lemma to_double_eval:
  assumes "k \<le> 1074" "2 ^ 52 \<le> \<bar>x\<bar> * 2 ^ k" "\<bar>x\<bar> * 2 ^ k \<le> 2 ^ 53"
  shows "to_double x = of_int (rne (x * 2 ^ k)) / 2 ^ k"
proof -
  have e: "(2 :: real) powi (int 52 - int k) = 2 ^ 52 / 2 ^ k"
    and e1: "(2 :: real) powi (int 52 - int k + 1) = 2 ^ 53 / 2 ^ k"
    and q: "(2 :: real) powi (int 52 - int k - int 53 + 1) = 1 / 2 ^ k"
    using two_powi_nat_diff[of 52 k] two_powi_nat_diff[of 53 k] two_powi_nat_diff[of 0 k]
    by simp_all
  have "fl_round 53 (- 1022) x =
      of_int (rne (x / 2 powi (int 52 - int k - int 53 + 1))) * 2 powi (int 52 - int k - int 53 + 1)"
  proof (rule fl_round_eval)
    show "- 1022 \<le> int 52 - int k" using assms(1) by simp
    show "2 powi (int 52 - int k) \<le> \<bar>x\<bar>" unfolding e using assms(2) by (simp add: field_simps)
    show "\<bar>x\<bar> \<le> 2 powi (int 52 - int k + 1)" unfolding e1 using assms(3) by (simp add: field_simps)
  qed simp
  then show ?thesis unfolding q to_double_def by simp
qed

lemma to_double_near:
  assumes "k \<le> 1074" "2 ^ 52 \<le> \<bar>x\<bar> * 2 ^ k" "\<bar>x\<bar> * 2 ^ k \<le> 2 ^ 53"
    and "of_int m - 1 / 2 < x * 2 ^ k" "x * 2 ^ k < of_int m + 1 / 2"
  shows "to_double x = of_int m / 2 ^ k"
  unfolding to_double_eval[OF assms(1,2,3)] rne_near[OF assms(4,5)] ..

lemma to_float_one [simp]: "to_float 1 = 1"
  using to_float_int[of 1] by simp

lemma to_double_one [simp]: "to_double 1 = 1"
  using to_double_int[of 1] by simp

lemma to_float_le_one: "x \<le> 1 \<Longrightarrow> to_float x \<le> 1"
  using to_float_mono[of x 1] by simp

lemma to_double_le_one: "x \<le> 1 \<Longrightarrow> to_double x \<le> 1"
  using to_double_mono[of x 1] by simp

lemma to_float_rel_error: "\<bar>to_float x - x\<bar> \<le> \<bar>to_float x\<bar> / 2 ^ 24 + 1 / 2 ^ 150"
proof -
  have a: "(2 :: real) powi (- int 24) = 1 / 2 ^ 24"
    using two_powi_nat_diff[of 0 24] by simp
  have b: "(2 :: real) powi (- 126 - int 24) = 1 / 2 ^ 150"
    using two_powi_nat_diff[of 0 150] by simp
  from fl_round_rel_error[of 24 "- 126" x] show ?thesis
    unfolding to_float_def a b by simp
qed

lemma to_float_rel_error_arg: "\<bar>to_float x - x\<bar> \<le> \<bar>x\<bar> / 2 ^ 24 + 1 / 2 ^ 150"
proof -
  have a: "(2 :: real) powi (- int 24) = 1 / 2 ^ 24"
    using two_powi_nat_diff[of 0 24] by simp
  have b: "(2 :: real) powi (- 126 - int 24) = 1 / 2 ^ 150"
    using two_powi_nat_diff[of 0 150] by simp
  from fl_round_rel_error_arg[of 24 "- 126" x] show ?thesis
    unfolding to_float_def a b by simp
qed

lemma to_float_rel_normal:
  assumes "x = 0 \<or> 1 / 2 ^ 126 \<le> \<bar>x\<bar>"
  shows "\<bar>to_float x - x\<bar> \<le> \<bar>x\<bar> / 2 ^ 24"
proof (cases "x = 0")
  case True
  then show ?thesis by simp
next
  case False
  have a: "(2 :: real) powi (- int 24) = 1 / 2 ^ 24"
    using two_powi_nat_diff[of 0 24] by simp
  have b: "(2 :: real) powi (- 126) = 1 / 2 ^ 126"
    using two_powi_nat_diff[of 0 126] by simp
  have "2 powi (- 126) \<le> \<bar>x\<bar>" unfolding b using assms False by simp
  from fl_round_rel_normal[OF _ this, of 24] show ?thesis
    unfolding to_float_def a by simp
qed

lemma to_float_rel_nonneg:
  assumes "x = 0 \<or> 1 / 2 ^ 126 \<le> x"
  shows "x * (1 - 1 / 2 ^ 24) \<le> to_float x" "to_float x \<le> x * (1 + 1 / 2 ^ 24)"
proof -
  have x: "0 \<le> x"
  proof -
    have "(0 :: real) \<le> 1 / 2 ^ 126" by simp
    with assms show ?thesis by linarith
  qed
  then have "x = 0 \<or> 1 / 2 ^ 126 \<le> \<bar>x\<bar>" using assms by simp
  define d where "d = x / 2 ^ 24"
  from to_float_rel_normal[OF \<open>x = 0 \<or> 1 / 2 ^ 126 \<le> \<bar>x\<bar>\<close>] x
  have h: "\<bar>to_float x - x\<bar> \<le> d" by (simp add: d_def)
  have e1: "x * (1 - 1 / 2 ^ 24) = x - d" and e2: "x * (1 + 1 / 2 ^ 24) = x + d"
    by (simp_all add: d_def algebra_simps)
  show "x * (1 - 1 / 2 ^ 24) \<le> to_float x" unfolding e1 using h by linarith
  show "to_float x \<le> x * (1 + 1 / 2 ^ 24)" unfolding e2 using h by linarith
qed

lemma to_float_ge_pow2:
  assumes "1 / 2 ^ k \<le> x" "k \<le> 149"
  shows "1 / 2 ^ k \<le> to_float x"
proof -
  have "to_float (of_int 1 / 2 ^ k) = of_int 1 / 2 ^ k"
    using assms(2) by (intro to_float_dyadic) simp_all
  with to_float_mono[OF assms(1)] show ?thesis by simp
qed

lemma to_float_zero_or_ge:
  assumes "x = 0 \<or> 1 / 2 ^ k \<le> x" "k \<le> 149"
  shows "to_float x = 0 \<or> 1 / 2 ^ k \<le> to_float x"
  using assms to_float_ge_pow2[of k x] by auto

lemma to_float_abs: "\<bar>to_float x\<bar> = to_float \<bar>x\<bar>"
  by (simp add: to_float_def fl_round_abs)

lemma to_float_le_dyadic:
  assumes "x \<le> of_int m / 2 ^ k" "\<bar>m\<bar> < 2 ^ 24" "k \<le> 149"
  shows "to_float x \<le> of_int m / 2 ^ k"
  using to_float_mono[OF assms(1)] to_float_dyadic[OF assms(2,3)] by simp

lemma to_double_le_dyadic:
  assumes "x \<le> of_int m / 2 ^ k" "\<bar>m\<bar> < 2 ^ 53" "k \<le> 1074"
  shows "to_double x \<le> of_int m / 2 ^ k"
  using to_double_mono[OF assms(1)] to_double_dyadic[OF assms(2,3)] by simp

lemma to_float_exact_eq:
  assumes "x = v" "v * 2 ^ k = of_int m" "\<bar>m\<bar> < 2 ^ 24" "k \<le> 149"
  shows "to_float x = v"
proof -
  have "v = of_int m / 2 ^ k" using assms(2) by (simp add: field_simps)
  then show ?thesis unfolding assms(1) using to_float_dyadic[OF assms(3,4)] by simp
qed

lemma to_float_two [simp]: "to_float 2 = 2"
  using to_float_int[of 2] by simp

lemma sqrt_between:
  assumes "0 \<le> a" "a\<^sup>2 < x" "0 \<le> b" "x < b\<^sup>2"
  shows "a < sqrt x" "sqrt x < b"
proof -
  show "a < sqrt x" using assms(2) by (rule real_less_rsqrt)
  have "0 \<le> x" using assms(2) by (meson less_le_trans less_imp_le zero_le_power2 order_trans)
  then show "sqrt x < b" using assms(3,4) by (intro real_less_lsqrt) 
qed

lemma to_float_one_plus: "to_float (1 + 1 / 2 ^ 25) = 1"
proof -
  have "to_float (1 + 1 / 2 ^ 25) = of_int 8388608 / 2 ^ 23"
    by (intro to_float_near) simp_all
  then show ?thesis by simp
qed

section \<open>Normalisation in binary32\<close>

lemma vec3f_norm_f32_I:
  assumes "to_float (vx v * vx v) = a" "to_float (vy v * vy v) = b" "to_float (vz v * vz v) = c"
    and "to_float (a + b) = s1" "to_float (s1 + c) = s" "to_float (sqrt s) = n"
  shows "vec3f_norm_f32 v = n"
  by (simp add: vec3f_norm_f32_def assms)

lemma vec3f_normalize_f32_I:
  assumes "vec3f_norm_f32 v = n" "0 < n"
    and "to_float (vx v / n) = a" "to_float (vy v / n) = b" "to_float (vz v / n) = c"
  shows "vec3f_normalize_f32 v = \<lparr>vx = a, vy = b, vz = c\<rparr>"
  by (simp add: vec3f_normalize_f32_def assms make_vec3f_def)

lemma normalize_f32_zero:
  "vec3f_normalize_f32 (make_vec3f 0 0 0) = make_vec3f 0 0 0"
  by (simp add: vec3f_normalize_f32_def vec3f_norm_f32_def make_vec3f_def)

lemma normalize_f32_components:
  "to_float (vx (vec3f_normalize_f32 v)) = vx (vec3f_normalize_f32 v)"
  "to_float (vy (vec3f_normalize_f32 v)) = vy (vec3f_normalize_f32 v)"
  "to_float (vz (vec3f_normalize_f32 v)) = vz (vec3f_normalize_f32 v)"
  by (simp_all add: vec3f_normalize_f32_def Let_def make_vec3f_def)

lemma normalize_f32_unit:
  assumes "to_float (vx u) = vx u" "to_float (vy u) = vy u" "to_float (vz u) = vz u"
    and "vec3f_norm_f32 u = 1"
  shows "vec3f_normalize_f32 u = u"
  by (simp add: vec3f_normalize_f32_def assms make_vec3f_def)

subsection \<open>A vector that is normalised to a fixed point\<close>

lemma norm_f32_034: "vec3f_norm_f32 \<lparr>vx = 0, vy = 3, vz = 4\<rparr> = 5"
proof (rule vec3f_norm_f32_I[where a = 0 and b = 9 and c = 16 and ?s1.0 = 9 and s = 25])
  show "to_float (vy \<lparr>vx = 0, vy = 3, vz = 4\<rparr> * vy \<lparr>vx = 0, vy = 3, vz = 4\<rparr>) = 9"
    using to_float_int[of 9] by simp
  show "to_float (vz \<lparr>vx = 0, vy = 3, vz = 4\<rparr> * vz \<lparr>vx = 0, vy = 3, vz = 4\<rparr>) = 16"
    using to_float_int[of 16] by simp
  show "to_float (0 + 9) = 9" using to_float_int[of 9] by simp
  show "to_float (9 + 16) = 25" using to_float_int[of 25] by simp
  have "sqrt 25 = 5" using real_sqrt_abs2[of 5] by simp
  then show "to_float (sqrt 25) = 5" using to_float_int[of 5] by simp
qed simp

lemma normalize_f32_034:
  "vec3f_normalize_f32 \<lparr>vx = 0, vy = 3, vz = 4\<rparr> =
     \<lparr>vx = 0, vy = 10066330 / 2 ^ 24, vz = 13421773 / 2 ^ 24\<rparr>"
proof (rule vec3f_normalize_f32_I)
  show "vec3f_norm_f32 \<lparr>vx = 0, vy = 3, vz = 4\<rparr> = 5" by (rule norm_f32_034)
  have "to_float (3 / 5) = of_int 10066330 / 2 ^ 24"
    by (intro to_float_near) simp_all
  then show "to_float (vy \<lparr>vx = 0, vy = 3, vz = 4\<rparr> / 5) = 10066330 / 2 ^ 24" by simp
  have "to_float (4 / 5) = of_int 13421773 / 2 ^ 24"
    by (intro to_float_near) simp_all
  then show "to_float (vz \<lparr>vx = 0, vy = 3, vz = 4\<rparr> / 5) = 13421773 / 2 ^ 24" by simp
qed simp_all

lemma norm_f32_normalized_034:
  "vec3f_norm_f32 \<lparr>vx = 0, vy = 10066330 / 2 ^ 24, vz = 13421773 / 2 ^ 24\<rparr> = 1"
proof (rule vec3f_norm_f32_I[where a = 0 and b = "12079596 / 2 ^ 25" and c = "10737419 / 2 ^ 24"
        and ?s1.0 = "12079596 / 2 ^ 25" and s = 1])
  let ?u = "\<lparr>vx = 0, vy = 10066330 / 2 ^ 24, vz = 13421773 / 2 ^ 24 :: real\<rparr>"
  have "to_float (10066330 / 2 ^ 24 * (10066330 / 2 ^ 24)) = of_int 12079596 / 2 ^ 25"
    by (intro to_float_near) simp_all
  then show "to_float (vy ?u * vy ?u) = 12079596 / 2 ^ 25" by simp
  have "to_float (13421773 / 2 ^ 24 * (13421773 / 2 ^ 24)) = of_int 10737419 / 2 ^ 24"
    by (intro to_float_near) simp_all
  then show "to_float (vz ?u * vz ?u) = 10737419 / 2 ^ 24" by simp
  show "to_float (0 + 12079596 / 2 ^ 25) = 12079596 / 2 ^ 25"
    using to_float_dyadic[of 12079596 25] by simp
  have "rne ((12079596 / 2 ^ 25 + 10737419 / 2 ^ 24) * 2 ^ 23) = 8388608"
    by (rule rne_tie_even) simp_all
  moreover have "to_float (12079596 / 2 ^ 25 + 10737419 / 2 ^ 24) =
      of_int (rne ((12079596 / 2 ^ 25 + 10737419 / 2 ^ 24) * 2 ^ 23)) / 2 ^ 23"
    by (rule to_float_eval) simp_all
  ultimately show "to_float (12079596 / 2 ^ 25 + 10737419 / 2 ^ 24) = 1" by simp
qed simp_all

subsection \<open>A vector whose normalisation is not a fixed point\<close>

lemma norm_f32_110: "vec3f_norm_f32 \<lparr>vx = 1, vy = 1, vz = 0\<rparr> = 11863283 / 2 ^ 23"
proof (rule vec3f_norm_f32_I[where a = 1 and b = 1 and c = 0 and ?s1.0 = 2 and s = 2])
  have b: "11863282.5 / 2 ^ 23 < sqrt 2" "sqrt 2 < 11863283.5 / 2 ^ 23"
    by (rule sqrt_between[of "11863282.5 / 2 ^ 23" 2 "11863283.5 / 2 ^ 23"]; simp add: power2_eq_square)+
  have "to_float (sqrt 2) = of_int 11863283 / 2 ^ 23"
    using b by (intro to_float_near) (simp_all add: field_simps)
  then show "to_float (sqrt 2) = 11863283 / 2 ^ 23" by simp
qed simp_all

lemma normalize_f32_110:
  "vec3f_normalize_f32 \<lparr>vx = 1, vy = 1, vz = 0\<rparr> =
     \<lparr>vx = 11863283 / 2 ^ 24, vy = 11863283 / 2 ^ 24, vz = 0\<rparr>"
proof (rule vec3f_normalize_f32_I)
  show "vec3f_norm_f32 \<lparr>vx = 1, vy = 1, vz = 0\<rparr> = 11863283 / 2 ^ 23" by (rule norm_f32_110)
  have "to_float (1 / (11863283 / 2 ^ 23)) = of_int 11863283 / 2 ^ 24"
    by (intro to_float_near) simp_all
  then show "to_float (vx \<lparr>vx = 1, vy = 1, vz = 0\<rparr> / (11863283 / 2 ^ 23)) = 11863283 / 2 ^ 24"
    and "to_float (vy \<lparr>vx = 1, vy = 1, vz = 0\<rparr> / (11863283 / 2 ^ 23)) = 11863283 / 2 ^ 24"
    by simp_all
qed simp_all

lemma norm_f32_normalized_110:
  "vec3f_norm_f32 \<lparr>vx = 11863283 / 2 ^ 24, vy = 11863283 / 2 ^ 24, vz = 0\<rparr> = 16777215 / 2 ^ 24"
proof (rule vec3f_norm_f32_I[where a = "16777215 / 2 ^ 25" and b = "16777215 / 2 ^ 25" and c = 0
        and ?s1.0 = "16777215 / 2 ^ 24" and s = "16777215 / 2 ^ 24"])
  have sq: "to_float (11863283 / 2 ^ 24 * (11863283 / 2 ^ 24)) = of_int 16777215 / 2 ^ 25"
    by (intro to_float_near) simp_all
  then show "to_float (vx \<lparr>vx = 11863283 / 2 ^ 24, vy = 11863283 / 2 ^ 24, vz = 0\<rparr> *
        vx \<lparr>vx = 11863283 / 2 ^ 24, vy = 11863283 / 2 ^ 24, vz = 0\<rparr>) = 16777215 / 2 ^ 25"
    and "to_float (vy \<lparr>vx = 11863283 / 2 ^ 24, vy = 11863283 / 2 ^ 24, vz = 0\<rparr> *
        vy \<lparr>vx = 11863283 / 2 ^ 24, vy = 11863283 / 2 ^ 24, vz = 0\<rparr>) = 16777215 / 2 ^ 25"
    by simp_all
  show "to_float (16777215 / 2 ^ 25 + 16777215 / 2 ^ 25) = 16777215 / 2 ^ 24"
    using to_float_dyadic[of 16777215 24] by simp
  show "to_float (16777215 / 2 ^ 24 + 0) = 16777215 / 2 ^ 24"
    using to_float_dyadic[of 16777215 24] by simp
  have b: "16777214.5 / 2 ^ 24 < sqrt (16777215 / 2 ^ 24)" "sqrt (16777215 / 2 ^ 24) < 16777215.5 / 2 ^ 24"
    by (rule sqrt_between[of "16777214.5 / 2 ^ 24" "16777215 / 2 ^ 24" "16777215.5 / 2 ^ 24"];
        simp add: power2_eq_square)+
  have "to_float (sqrt (16777215 / 2 ^ 24)) = of_int 16777215 / 2 ^ 24"
    using b by (intro to_float_near) (simp_all add: field_simps)
  then show "to_float (sqrt (16777215 / 2 ^ 24)) = 16777215 / 2 ^ 24" by simp
qed simp_all

lemma normalize_f32_twice_110:
  "vec3f_normalize_f32 \<lparr>vx = 11863283 / 2 ^ 24, vy = 11863283 / 2 ^ 24, vz = 0\<rparr> =
     \<lparr>vx = 11863284 / 2 ^ 24, vy = 11863284 / 2 ^ 24, vz = 0\<rparr>"
proof (rule vec3f_normalize_f32_I)
  show "vec3f_norm_f32 \<lparr>vx = 11863283 / 2 ^ 24, vy = 11863283 / 2 ^ 24, vz = 0\<rparr> = 16777215 / 2 ^ 24"
    by (rule norm_f32_normalized_110)
  have "to_float (11863283 / 2 ^ 24 / (16777215 / 2 ^ 24)) = of_int 11863284 / 2 ^ 24"
    by (intro to_float_near) simp_all
  then show "to_float (vx \<lparr>vx = 11863283 / 2 ^ 24, vy = 11863283 / 2 ^ 24, vz = 0\<rparr> / (16777215 / 2 ^ 24))
       = 11863284 / 2 ^ 24"
    and "to_float (vy \<lparr>vx = 11863283 / 2 ^ 24, vy = 11863283 / 2 ^ 24, vz = 0\<rparr> / (16777215 / 2 ^ 24))
       = 11863284 / 2 ^ 24"
    by simp_all
qed simp_all

subsection \<open>The second normalisation is close to the first\<close>

text \<open>
  Every operation of the normalisation has a relative error of at most \<open>2 ^ -24\<close> when
  nothing underflows. The square of the computed norm \<open>n\<close> of \<open>v\<close> is then within the
  factors \<open>(1 \<plusminus> 2 ^ -24) ^ 5\<close> of the sum of the squares, the squares of the components of
  the normalised vector sum to \<open>1\<close> within the factors \<open>(1 \<plusminus> 2 ^ -24) ^ 2\<close> and the same
  five again, so that its computed norm lies in \<open>[1 - 7 * 2 ^ -24, 1 + 7 * 2 ^ -24]\<close>, and
  dividing by such a number and rounding moves a component by less than \<open>2 ^ -20\<close> of
  its magnitude.
\<close>

lemma sumsq_bounds:
  fixes e E :: real
  assumes eE: "0 < e" "e \<le> 1" "1 \<le> E"
    and nn: "0 \<le> x2" "0 \<le> y2" "0 \<le> z2"
    and a: "x2 * e \<le> a" "a \<le> x2 * E" and b: "y2 * e \<le> b" "b \<le> y2 * E"
    and c: "z2 * e \<le> c" "c \<le> z2 * E"
    and s1: "(a + b) * e \<le> s1" "s1 \<le> (a + b) * E"
    and s: "(s1 + c) * e \<le> s" "s \<le> (s1 + c) * E"
  shows "(x2 + y2 + z2) * e ^ 3 \<le> s" "s \<le> (x2 + y2 + z2) * E ^ 3"
proof -
  have E0: "0 \<le> E" using eE by simp
  have a0: "0 \<le> a" and b0: "0 \<le> b" and c0: "0 \<le> c"
    using a(1) b(1) c(1) nn eE(1) by (meson mult_nonneg_nonneg less_imp_le order_trans)+
  have ab: "a + b \<le> (x2 + y2) * E" using a(2) b(2) by (simp add: algebra_simps)
  have "s1 \<le> (x2 + y2) * E * E"
    using s1(2) mult_right_mono[OF ab E0] by linarith
  moreover have "c \<le> z2 * E * E"
  proof -
    have "z2 * E * 1 \<le> z2 * E * E" using nn(3) E0 eE(3) by (intro mult_left_mono) simp_all
    with c(2) show ?thesis by simp
  qed
  ultimately have sc: "s1 + c \<le> (x2 + y2 + z2) * E * E" by (simp add: algebra_simps)
  have "s \<le> (x2 + y2 + z2) * E * E * E"
    using s(2) mult_right_mono[OF sc E0] by linarith
  then show "s \<le> (x2 + y2 + z2) * E ^ 3" by (simp add: power3_eq_cube algebra_simps)
  have e0: "0 \<le> e" using eE by simp
  have ab': "(x2 + y2) * e \<le> a + b" using a(1) b(1) by (simp add: algebra_simps)
  have s10: "(x2 + y2) * e * e \<le> s1"
    using s1(1) mult_right_mono[OF ab' e0] by linarith
  moreover have "z2 * e * e \<le> c"
  proof -
    have "z2 * e * e \<le> z2 * e * 1" using nn(3) e0 eE(2) by (intro mult_left_mono) simp_all
    with c(1) show ?thesis by simp
  qed
  ultimately have sc': "(x2 + y2 + z2) * e * e \<le> s1 + c" by (simp add: algebra_simps)
  have "(x2 + y2 + z2) * e * e * e \<le> s"
    using s(1) mult_right_mono[OF sc' e0] by linarith
  then show "(x2 + y2 + z2) * e ^ 3 \<le> s" by (simp add: power3_eq_cube algebra_simps)
qed

lemma sumsq_f32_bounds:
  assumes "x = 0 \<or> 1 / 2 ^ 60 \<le> \<bar>x\<bar>" "y = 0 \<or> 1 / 2 ^ 60 \<le> \<bar>y\<bar>" "z = 0 \<or> 1 / 2 ^ 60 \<le> \<bar>z\<bar>"
  defines "S \<equiv> to_float (to_float (to_float (x * x) + to_float (y * y)) + to_float (z * z))"
  shows "(x * x + y * y + z * z) * (1 - 1 / 2 ^ 24) ^ 3 \<le> S"
    and "S \<le> (x * x + y * y + z * z) * (1 + 1 / 2 ^ 24) ^ 3"
    and "S = 0 \<or> 1 / 2 ^ 120 \<le> S"
proof -
  have sq: "t * t = 0 \<or> 1 / 2 ^ 120 \<le> t * t" if "t = 0 \<or> 1 / 2 ^ 60 \<le> \<bar>t\<bar>" for t :: real
  proof (cases "t = 0")
    case True
    then show ?thesis by simp
  next
    case False
    with that have h: "1 / 2 ^ 60 \<le> \<bar>t\<bar>" by simp
    have "1 / 2 ^ 60 * (1 / 2 ^ 60) \<le> \<bar>t\<bar> * \<bar>t\<bar>" using h by (intro mult_mono) simp_all
    then show ?thesis by (simp add: abs_mult_self_eq)
  qed
  have w: "t = 0 \<or> 1 / 2 ^ 126 \<le> t" if "t = 0 \<or> 1 / 2 ^ 120 \<le> t" for t :: real
  proof -
    have "(1 :: real) / 2 ^ 126 \<le> 1 / 2 ^ 120" by simp
    with that show ?thesis by linarith
  qed
  define a where "a = to_float (x * x)"
  define b where "b = to_float (y * y)"
  define c where "c = to_float (z * z)"
  define s1 where "s1 = to_float (a + b)"
  have S: "S = to_float (s1 + c)" by (simp add: S_def s1_def a_def b_def c_def)
  have xx: "x * x = 0 \<or> 1 / 2 ^ 120 \<le> x * x" by (rule sq[OF assms(1)])
  have yy: "y * y = 0 \<or> 1 / 2 ^ 120 \<le> y * y" by (rule sq[OF assms(2)])
  have zz: "z * z = 0 \<or> 1 / 2 ^ 120 \<le> z * z" by (rule sq[OF assms(3)])
  have a0: "a = 0 \<or> 1 / 2 ^ 120 \<le> a" unfolding a_def by (rule to_float_zero_or_ge[OF xx]) simp
  have b0: "b = 0 \<or> 1 / 2 ^ 120 \<le> b" unfolding b_def by (rule to_float_zero_or_ge[OF yy]) simp
  have c0: "c = 0 \<or> 1 / 2 ^ 120 \<le> c" unfolding c_def by (rule to_float_zero_or_ge[OF zz]) simp
  have p: "(0 :: real) \<le> 1 / 2 ^ 120" by simp
  have ab: "a + b = 0 \<or> 1 / 2 ^ 120 \<le> a + b" using a0 b0 p by linarith
  have s10: "s1 = 0 \<or> 1 / 2 ^ 120 \<le> s1" unfolding s1_def by (rule to_float_zero_or_ge[OF ab]) simp
  have sc: "s1 + c = 0 \<or> 1 / 2 ^ 120 \<le> s1 + c" using s10 c0 p by linarith
  show "S = 0 \<or> 1 / 2 ^ 120 \<le> S" unfolding S by (rule to_float_zero_or_ge[OF sc]) simp
  have A: "x * x * (1 - 1 / 2 ^ 24) \<le> a" "a \<le> x * x * (1 + 1 / 2 ^ 24)"
    unfolding a_def by (rule to_float_rel_nonneg[OF w[OF xx]])+
  have B: "y * y * (1 - 1 / 2 ^ 24) \<le> b" "b \<le> y * y * (1 + 1 / 2 ^ 24)"
    unfolding b_def by (rule to_float_rel_nonneg[OF w[OF yy]])+
  have C: "z * z * (1 - 1 / 2 ^ 24) \<le> c" "c \<le> z * z * (1 + 1 / 2 ^ 24)"
    unfolding c_def by (rule to_float_rel_nonneg[OF w[OF zz]])+
  have S1: "(a + b) * (1 - 1 / 2 ^ 24) \<le> s1" "s1 \<le> (a + b) * (1 + 1 / 2 ^ 24)"
    unfolding s1_def by (rule to_float_rel_nonneg[OF w[OF ab]])+
  have SS: "(s1 + c) * (1 - 1 / 2 ^ 24) \<le> S" "S \<le> (s1 + c) * (1 + 1 / 2 ^ 24)"
    unfolding S by (rule to_float_rel_nonneg[OF w[OF sc]])+
  show "(x * x + y * y + z * z) * (1 - 1 / 2 ^ 24) ^ 3 \<le> S"
    by (rule sumsq_bounds(1)[OF _ _ _ _ _ _ A B C S1 SS]) simp_all
  show "S \<le> (x * x + y * y + z * z) * (1 + 1 / 2 ^ 24) ^ 3"
    by (rule sumsq_bounds(2)[OF _ _ _ _ _ _ A B C S1 SS]) simp_all
qed

lemma square_bounds:
  fixes a lo hi :: real
  assumes "0 \<le> lo" "lo \<le> a" "a \<le> hi"
  shows "lo * lo \<le> a * a" "a * a \<le> hi * hi"
  using assms by (auto intro!: mult_mono)

lemma norm_f32_bounds:
  fixes v :: vec3f
  defines "x \<equiv> vx v" and "y \<equiv> vy v" and "z \<equiv> vz v"
  assumes "x = 0 \<or> 1 / 2 ^ 60 \<le> \<bar>x\<bar>" "y = 0 \<or> 1 / 2 ^ 60 \<le> \<bar>y\<bar>" "z = 0 \<or> 1 / 2 ^ 60 \<le> \<bar>z\<bar>"
  defines "n \<equiv> vec3f_norm_f32 v"
  shows "(x * x + y * y + z * z) * (1 - 1 / 2 ^ 24) ^ 5 \<le> n * n"
    and "n * n \<le> (x * x + y * y + z * z) * (1 + 1 / 2 ^ 24) ^ 5"
    and "0 \<le> n"
proof -
  define e :: real where "e = 1 - 1 / 2 ^ 24"
  define E :: real where "E = 1 + 1 / 2 ^ 24"
  define Q where "Q = x * x + y * y + z * z"
  define S where "S = to_float (to_float (to_float (x * x) + to_float (y * y)) + to_float (z * z))"
  have eE: "0 \<le> e" "0 \<le> E" by (simp_all add: e_def E_def)
  have Q0: "0 \<le> Q" by (simp add: Q_def)
  have n: "n = to_float (sqrt S)" by (simp add: n_def vec3f_norm_f32_def S_def x_def y_def z_def)
  from sumsq_f32_bounds[OF assms(4,5,6)]
  have S: "Q * e ^ 3 \<le> S" "S \<le> Q * E ^ 3" "S = 0 \<or> 1 / 2 ^ 120 \<le> S"
    by (simp_all add: Q_def e_def E_def S_def)
  have S0: "0 \<le> S" using S(1) Q0 eE by (meson mult_nonneg_nonneg order_trans zero_le_power)
  have r: "sqrt S = 0 \<or> 1 / 2 ^ 126 \<le> sqrt S"
  proof (cases "S = 0")
    case True
    then show ?thesis by simp
  next
    case False
    with S(3) have "1 / 2 ^ 120 \<le> S" by simp
    then have "(1 / 2 ^ 126)\<^sup>2 \<le> S" by (simp add: power2_eq_square)
    then have "1 / 2 ^ 126 \<le> sqrt S" by (rule real_le_rsqrt)
    then show ?thesis by simp
  qed
  from to_float_rel_nonneg[OF r]
  have nb: "sqrt S * e \<le> n" "n \<le> sqrt S * E" by (simp_all add: n e_def E_def)
  have q0: "0 \<le> sqrt S * e" using S0 eE by simp
  then show "0 \<le> n" using nb(1) by linarith
  have ss: "sqrt S * sqrt S = S" using S0 by simp
  from square_bounds[OF q0 nb]
  have "S * (e * e) \<le> n * n" "n * n \<le> S * (E * E)"
    using ss by (simp_all add: algebra_simps)
  moreover have "Q * e ^ 3 * (e * e) \<le> S * (e * e)"
    using S(1) eE by (intro mult_right_mono) simp_all
  moreover have "S * (E * E) \<le> Q * E ^ 3 * (E * E)"
    using S(2) eE by (intro mult_right_mono) simp_all
  moreover have "Q * e ^ 3 * (e * e) = Q * e ^ 5" "Q * E ^ 3 * (E * E) = Q * E ^ 5"
    by (simp_all add: eval_nat_numeral)
  ultimately have "Q * e ^ 5 \<le> n * n" "n * n \<le> Q * E ^ 5" by linarith+
  then show "(x * x + y * y + z * z) * (1 - 1 / 2 ^ 24) ^ 5 \<le> n * n"
    and "n * n \<le> (x * x + y * y + z * z) * (1 + 1 / 2 ^ 24) ^ 5"
    by (simp_all add: Q_def e_def E_def)
qed

lemma comp_f32_bounds:
  assumes n: "0 < n" "n \<le> 2 ^ 22" and t: "t = 0 \<or> 1 / 2 ^ 20 \<le> \<bar>t\<bar>"
  defines "U \<equiv> to_float (t / n)"
  shows "t * t * ((1 - 1 / 2 ^ 24) * (1 - 1 / 2 ^ 24)) \<le> U * U * (n * n)"
    and "U * U * (n * n) \<le> t * t * ((1 + 1 / 2 ^ 24) * (1 + 1 / 2 ^ 24))"
    and "U = 0 \<or> 1 / 2 ^ 60 \<le> \<bar>U\<bar>"
proof -
  define e :: real where "e = 1 - 1 / 2 ^ 24"
  define E :: real where "E = 1 + 1 / 2 ^ 24"
  define r where "r = \<bar>t\<bar> / n"
  have eE: "0 \<le> e" "0 \<le> E" by (simp_all add: e_def E_def)
  have aU: "\<bar>U\<bar> = to_float r" using n(1) by (simp add: U_def to_float_abs r_def)
  have rn: "r * n = \<bar>t\<bar>" using n(1) by (simp add: r_def)
  have r42: "r = 0 \<or> 1 / 2 ^ 42 \<le> r"
  proof (cases "t = 0")
    case True
    then show ?thesis by (simp add: r_def)
  next
    case False
    with t have "1 / 2 ^ 20 \<le> \<bar>t\<bar>" by simp
    then have "1 / 2 ^ 20 / 2 ^ 22 \<le> \<bar>t\<bar> / n"
      using n by (intro frac_le) simp_all
    then show ?thesis by (simp add: r_def)
  qed
  have p: "(1 :: real) / 2 ^ 126 \<le> 1 / 2 ^ 42" "(1 :: real) / 2 ^ 60 \<le> 1 / 2 ^ 42" by simp_all
  have r126: "r = 0 \<or> 1 / 2 ^ 126 \<le> r" using r42 p(1) by linarith
  from to_float_rel_nonneg[OF r126]
  have b: "r * e \<le> \<bar>U\<bar>" "\<bar>U\<bar> \<le> r * E" by (simp_all add: aU e_def E_def)
  have "\<bar>U\<bar> = 0 \<or> 1 / 2 ^ 42 \<le> \<bar>U\<bar>"
    unfolding aU by (rule to_float_zero_or_ge[OF r42]) simp
  then show "U = 0 \<or> 1 / 2 ^ 60 \<le> \<bar>U\<bar>" using p(2) by auto
  have n0: "0 \<le> n" using n(1) by simp
  have lo: "\<bar>t\<bar> * e \<le> \<bar>U\<bar> * n"
    using mult_right_mono[OF b(1) n0] rn by (simp add: mult.assoc mult.commute mult.left_commute)
  have hi: "\<bar>U\<bar> * n \<le> \<bar>t\<bar> * E"
    using mult_right_mono[OF b(2) n0] rn by (simp add: mult.assoc mult.commute mult.left_commute)
  have l0: "0 \<le> \<bar>t\<bar> * e" using eE by simp
  from square_bounds[OF l0 lo hi]
  have "\<bar>t\<bar> * e * (\<bar>t\<bar> * e) \<le> \<bar>U\<bar> * n * (\<bar>U\<bar> * n)" "\<bar>U\<bar> * n * (\<bar>U\<bar> * n) \<le> \<bar>t\<bar> * E * (\<bar>t\<bar> * E)" .
  moreover have "\<bar>t\<bar> * e * (\<bar>t\<bar> * e) = t * t * (e * e)" "\<bar>t\<bar> * E * (\<bar>t\<bar> * E) = t * t * (E * E)"
    "\<bar>U\<bar> * n * (\<bar>U\<bar> * n) = U * U * (n * n)"
    using abs_mult_self_eq[of t] abs_mult_self_eq[of U] by (simp_all add: algebra_simps)
  ultimately show "t * t * ((1 - 1 / 2 ^ 24) * (1 - 1 / 2 ^ 24)) \<le> U * U * (n * n)"
    and "U * U * (n * n) \<le> t * t * ((1 + 1 / 2 ^ 24) * (1 + 1 / 2 ^ 24))"
    unfolding e_def E_def by simp_all
qed

lemma div_near_one:
  assumes m: "1 - 7 / 2 ^ 24 \<le> m" "m \<le> 1 + 7 / 2 ^ 24" and U: "U = 0 \<or> 1 / 2 ^ 60 \<le> \<bar>U\<bar>"
  shows "\<bar>to_float (U / m) - U\<bar> \<le> \<bar>U\<bar> / 2 ^ 20"
proof -
  define a where "a = \<bar>U\<bar>"
  define u :: real where "u = 1 / 2 ^ 24"
  have u: "0 < u" "u \<le> 1 / 32" by (simp_all add: u_def)
  have m': "1 - 7 * u \<le> m" "m \<le> 1 + 7 * u" using m by (simp_all add: u_def)
  have m0: "1 / 2 \<le> m" "m \<le> 2" "0 < m" using m' u by linarith+
  have a0: "0 \<le> a" by (simp add: a_def)
  have ar: "\<bar>U / m\<bar> = a / m" using m0(3) by (simp add: a_def)
  have am: "a / m \<le> 2 * a"
  proof -
    have "a / m \<le> a / (1 / 2)" using a0 m0(1) by (intro divide_left_mono) simp_all
    then show ?thesis by simp
  qed
  have pre: "U / m = 0 \<or> 1 / 2 ^ 126 \<le> \<bar>U / m\<bar>"
  proof (cases "U = 0")
    case True
    then show ?thesis by simp
  next
    case False
    with U have "1 / 2 ^ 60 \<le> a" by (simp add: a_def)
    then have "1 / 2 ^ 60 / 2 \<le> a / m" using m0 by (intro frac_le) simp_all
    moreover have "(1 :: real) / 2 ^ 126 \<le> 1 / 2 ^ 60 / 2" by simp
    ultimately show ?thesis unfolding ar by linarith
  qed
  from to_float_rel_normal[OF pre]
  have e1: "\<bar>to_float (U / m) - U / m\<bar> \<le> a / m * u" unfolding ar u_def by simp
  have "a / m * u \<le> 2 * a * u" using am u(1) by (intro mult_right_mono) simp_all
  with e1 have e1': "\<bar>to_float (U / m) - U / m\<bar> \<le> 2 * a * u" by linarith
  have "U / m - U = U / m * (1 - m)" using m0(3) by (simp add: field_simps)
  then have "\<bar>U / m - U\<bar> = \<bar>U / m\<bar> * \<bar>1 - m\<bar>" by (simp only: abs_mult)
  then have "\<bar>U / m - U\<bar> = a / m * \<bar>1 - m\<bar>" unfolding ar .
  also have "\<dots> \<le> 2 * a * (7 * u)"
  proof (rule mult_mono)
    show "a / m \<le> 2 * a" by (rule am)
    show "\<bar>1 - m\<bar> \<le> 7 * u" using m' by linarith
    show "0 \<le> 2 * a" using a0 by simp
    show "0 \<le> \<bar>1 - m\<bar>" by simp
  qed
  finally have e2: "\<bar>U / m - U\<bar> \<le> 14 * (a * u)" by simp
  have "\<bar>to_float (U / m) - U\<bar> \<le> \<bar>to_float (U / m) - U / m\<bar> + \<bar>U / m - U\<bar>" by linarith
  also have "\<dots> \<le> 2 * (a * u) + 14 * (a * u)" using e1' e2 by simp
  also have "\<dots> = a / 2 ^ 20" by (simp add: u_def)
  finally show ?thesis unfolding a_def .
qed

lemma rounding_constants:
  "(1 - 7 / 2 ^ 24)\<^sup>2 * (1 + 1 / 2 ^ 24) ^ 5 \<le> ((1 - 1 / 2 ^ 24) ^ 7 :: real)"
  "((1 + 1 / 2 ^ 24) ^ 7 :: real) \<le> (1 + 7 / 2 ^ 24)\<^sup>2 * (1 - 1 / 2 ^ 24) ^ 5"
  "3 * 2 ^ 40 * (1 + 1 / 2 ^ 24) ^ 5 \<le> ((2 ^ 22)\<^sup>2 :: real)"
  by (simp_all add: power_divide)

lemma normalize_f32_twice_close:
  assumes x: "vx v = 0 \<or> 1 / 2 ^ 20 \<le> \<bar>vx v\<bar> \<and> \<bar>vx v\<bar> \<le> 2 ^ 20"
    and y: "vy v = 0 \<or> 1 / 2 ^ 20 \<le> \<bar>vy v\<bar> \<and> \<bar>vy v\<bar> \<le> 2 ^ 20"
    and z: "vz v = 0 \<or> 1 / 2 ^ 20 \<le> \<bar>vz v\<bar> \<and> \<bar>vz v\<bar> \<le> 2 ^ 20"
  shows "\<bar>vx (vec3f_normalize_f32 (vec3f_normalize_f32 v)) - vx (vec3f_normalize_f32 v)\<bar>
           \<le> \<bar>vx (vec3f_normalize_f32 v)\<bar> / 2 ^ 20"
    and "\<bar>vy (vec3f_normalize_f32 (vec3f_normalize_f32 v)) - vy (vec3f_normalize_f32 v)\<bar>
           \<le> \<bar>vy (vec3f_normalize_f32 v)\<bar> / 2 ^ 20"
    and "\<bar>vz (vec3f_normalize_f32 (vec3f_normalize_f32 v)) - vz (vec3f_normalize_f32 v)\<bar>
           \<le> \<bar>vz (vec3f_normalize_f32 v)\<bar> / 2 ^ 20"
proof -
  define n where "n = vec3f_norm_f32 v"
  define U where "U = vec3f_normalize_f32 v"
  define m where "m = vec3f_norm_f32 U"
  define e :: real where "e = 1 - 1 / 2 ^ 24"
  define E :: real where "E = 1 + 1 / 2 ^ 24"
  define Q where "Q = vx v * vx v + vy v * vy v + vz v * vz v"
  define R where "R = vx U * vx U + vy U * vy U + vz U * vz U"
  have goal: "\<bar>vx (vec3f_normalize_f32 U) - vx U\<bar> \<le> \<bar>vx U\<bar> / 2 ^ 20 \<and>
      \<bar>vy (vec3f_normalize_f32 U) - vy U\<bar> \<le> \<bar>vy U\<bar> / 2 ^ 20 \<and>
      \<bar>vz (vec3f_normalize_f32 U) - vz U\<bar> \<le> \<bar>vz U\<bar> / 2 ^ 20"
  proof (cases "0 < n")
    case False
    then have "U = make_vec3f 0 0 0" by (simp add: U_def vec3f_normalize_f32_def n_def)
    then show ?thesis by (simp add: normalize_f32_zero)
  next
    case n0: True
    have eE: "0 < e" "0 < E" by (simp_all add: e_def E_def)
    have p: "(1 :: real) / 2 ^ 60 \<le> 1 / 2 ^ 20" by simp
    have c60: "vx v = 0 \<or> 1 / 2 ^ 60 \<le> \<bar>vx v\<bar>" "vy v = 0 \<or> 1 / 2 ^ 60 \<le> \<bar>vy v\<bar>"
      "vz v = 0 \<or> 1 / 2 ^ 60 \<le> \<bar>vz v\<bar>"
      using x y z p by linarith+
    have c20: "vx v = 0 \<or> 1 / 2 ^ 20 \<le> \<bar>vx v\<bar>" "vy v = 0 \<or> 1 / 2 ^ 20 \<le> \<bar>vy v\<bar>"
      "vz v = 0 \<or> 1 / 2 ^ 20 \<le> \<bar>vz v\<bar>"
      using x y z by blast+
    have v: "v = \<lparr>vx = vx v, vy = vy v, vz = vz v\<rparr>" by simp
    have nb: "Q * e ^ 5 \<le> n * n" "n * n \<le> Q * E ^ 5"
      using norm_f32_bounds(1,2)[OF c60] unfolding Q_def e_def E_def n_def by simp_all
    have sq: "t * t \<le> 2 ^ 40" if "t = 0 \<or> 1 / 2 ^ 20 \<le> \<bar>t\<bar> \<and> \<bar>t\<bar> \<le> 2 ^ 20" for t :: real
    proof -
      have "\<bar>t\<bar> \<le> 2 ^ 20" using that by auto
      then have "\<bar>t\<bar> * \<bar>t\<bar> \<le> 2 ^ 20 * 2 ^ 20" by (intro mult_mono) simp_all
      then show ?thesis by (simp add: abs_mult_self_eq)
    qed
    have Q40: "Q \<le> 3 * 2 ^ 40" using sq[OF x] sq[OF y] sq[OF z] by (simp add: Q_def)
    have "Q * E ^ 5 \<le> 3 * 2 ^ 40 * E ^ 5" using Q40 eE by (intro mult_right_mono) simp_all
    also have "\<dots> \<le> (2 ^ 22)\<^sup>2" unfolding E_def by (rule rounding_constants(3))
    finally have "n\<^sup>2 \<le> (2 ^ 22)\<^sup>2" using nb(2) by (simp add: power2_eq_square)
    then have n22: "n \<le> 2 ^ 22" by (rule power2_le_imp_le) simp
    have nn: "0 < n * n" using n0 by simp
    have Q0: "0 < Q"
    proof (rule ccontr)
      assume "\<not> 0 < Q"
      moreover have "0 \<le> Q" by (simp add: Q_def)
      ultimately have "Q = 0" by simp
      with nb(2) nn show False by simp
    qed
    have Ux: "vx U = to_float (vx v / n)" and Uy: "vy U = to_float (vy v / n)"
      and Uz: "vz U = to_float (vz v / n)"
      using n0 by (simp_all add: U_def vec3f_normalize_f32_def n_def[symmetric] make_vec3f_def)
    note cx = comp_f32_bounds[OF n0 n22 c20(1), folded Ux]
    note cy = comp_f32_bounds[OF n0 n22 c20(2), folded Uy]
    note cz = comp_f32_bounds[OF n0 n22 c20(3), folded Uz]
    have Rlo: "Q * (e * e) \<le> R * (n * n)"
      using cx(1) cy(1) cz(1) unfolding Q_def R_def e_def by (simp add: algebra_simps)
    have Rhi: "R * (n * n) \<le> Q * (E * E)"
      using cx(2) cy(2) cz(2) unfolding Q_def R_def E_def by (simp add: algebra_simps)
    have Uv: "U = \<lparr>vx = vx U, vy = vy U, vz = vz U\<rparr>" by simp
    have mb: "R * e ^ 5 \<le> m * m" "m * m \<le> R * E ^ 5" "0 \<le> m"
      using norm_f32_bounds[OF cx(3) cy(3) cz(3)] unfolding R_def e_def E_def m_def by simp_all
    have lo1: "Q * e ^ 7 \<le> m * m * (n * n)"
    proof -
      have "Q * (e * e) * e ^ 5 \<le> R * (n * n) * e ^ 5"
        using Rlo eE by (intro mult_right_mono) simp_all
      also have "\<dots> = R * e ^ 5 * (n * n)" by (simp add: algebra_simps)
      also have "\<dots> \<le> m * m * (n * n)" using mb(1) nn by (intro mult_right_mono) simp_all
      finally show ?thesis by (simp add: eval_nat_numeral algebra_simps)
    qed
    have hi1: "m * m * (n * n) \<le> Q * E ^ 7"
    proof -
      have "m * m * (n * n) \<le> R * E ^ 5 * (n * n)" using mb(2) nn by (intro mult_right_mono) simp_all
      also have "\<dots> = R * (n * n) * E ^ 5" by (simp add: algebra_simps)
      also have "\<dots> \<le> Q * (E * E) * E ^ 5" using Rhi eE by (intro mult_right_mono) simp_all
      finally show ?thesis by (simp add: eval_nat_numeral algebra_simps)
    qed
    have mm0: "0 \<le> m * m" by simp
    have lo2: "e ^ 7 \<le> m * m * E ^ 5"
    proof -
      have "m * m * (n * n) \<le> m * m * (Q * E ^ 5)" using nb(2) mm0 by (intro mult_left_mono)
      with lo1 have "Q * e ^ 7 \<le> Q * (m * m * E ^ 5)" by (simp add: algebra_simps)
      then show ?thesis using Q0 by simp
    qed
    have hi2: "m * m * e ^ 5 \<le> E ^ 7"
    proof -
      have "m * m * (Q * e ^ 5) \<le> m * m * (n * n)" using nb(1) mm0 by (intro mult_left_mono)
      with hi1 have "Q * (m * m * e ^ 5) \<le> Q * E ^ 7" by (simp add: algebra_simps)
      then show ?thesis using Q0 by simp
    qed
    have e5: "0 < e ^ 5" "0 < E ^ 5" using eE by simp_all
    have rc1: "(1 - 7 / 2 ^ 24)\<^sup>2 * E ^ 5 \<le> e ^ 7" unfolding e_def E_def
      by (rule rounding_constants(1))
    have rc2: "E ^ 7 \<le> (1 + 7 / 2 ^ 24)\<^sup>2 * e ^ 5" unfolding e_def E_def
      by (rule rounding_constants(2))
    have lo2': "e ^ 7 \<le> m\<^sup>2 * E ^ 5" using lo2 by (simp only: power2_eq_square)
    have hi2': "m\<^sup>2 * e ^ 5 \<le> E ^ 7" using hi2 by (simp only: power2_eq_square)
    have "(1 - 7 / 2 ^ 24)\<^sup>2 * E ^ 5 \<le> m\<^sup>2 * E ^ 5" using rc1 lo2' by (rule order_trans)
    then have "(1 - 7 / 2 ^ 24)\<^sup>2 \<le> m\<^sup>2" using e5(2) by (rule mult_right_le_imp_le)
    then have m1: "1 - 7 / 2 ^ 24 \<le> m" using mb(3) by (rule power2_le_imp_le)
    have "m\<^sup>2 * e ^ 5 \<le> (1 + 7 / 2 ^ 24)\<^sup>2 * e ^ 5" using hi2' rc2 by (rule order_trans)
    then have "m\<^sup>2 \<le> (1 + 7 / 2 ^ 24)\<^sup>2" using e5(1) by (rule mult_right_le_imp_le)
    then have m2: "m \<le> 1 + 7 / 2 ^ 24" by (rule power2_le_imp_le) simp
    have "(0 :: real) < 1 - 7 / 2 ^ 24" by simp
    with m1 have mpos: "0 < m" by linarith
    have W: "vec3f_normalize_f32 U = \<lparr>vx = to_float (vx U / m), vy = to_float (vy U / m),
        vz = to_float (vz U / m)\<rparr>"
      using mpos by (simp add: vec3f_normalize_f32_def[of U] m_def[symmetric] make_vec3f_def)
    show ?thesis
      unfolding W using div_near_one[OF m1 m2 cx(3)] div_near_one[OF m1 m2 cy(3)]
        div_near_one[OF m1 m2 cz(3)] by simp
  qed
  then show "\<bar>vx (vec3f_normalize_f32 (vec3f_normalize_f32 v)) - vx (vec3f_normalize_f32 v)\<bar>
           \<le> \<bar>vx (vec3f_normalize_f32 v)\<bar> / 2 ^ 20"
    and "\<bar>vy (vec3f_normalize_f32 (vec3f_normalize_f32 v)) - vy (vec3f_normalize_f32 v)\<bar>
           \<le> \<bar>vy (vec3f_normalize_f32 v)\<bar> / 2 ^ 20"
    and "\<bar>vz (vec3f_normalize_f32 (vec3f_normalize_f32 v)) - vz (vec3f_normalize_f32 v)\<bar>
           \<le> \<bar>vz (vec3f_normalize_f32 v)\<bar> / 2 ^ 20"
    unfolding U_def by simp_all
qed

text \<open>
  Claim C8, as it holds of the program. The zero vector is normalised to itself, and
  \<open>vec3f_normalize\<close> is a total function into vectors (the guard \<open>n > 0\<close> replaces the
  division by a zero length, no outcome is an error), in binary32 as in exact
  arithmetic. In binary32 normalising twice is normalising once up to rounding: every
  component of the second normalisation differs from that of the first by at most
  \<open>2 ^ -20\<close> of its magnitude, and the two are equal whenever the norm of the normalised
  vector is computed as exactly \<open>1\<close>. In exact arithmetic that norm is always \<open>1\<close> for a
  vector other than zero, and normalising twice is normalising once. The components
  are taken to be zero or of magnitude between \<open>2 ^ -20\<close> and \<open>2 ^ 20\<close>, for which no
  operation overflows or underflows.
\<close>

theorem normalize_idempotent_up_to_rounding:
  assumes "vx v = 0 \<or> 1 / 2 ^ 20 \<le> \<bar>vx v\<bar> \<and> \<bar>vx v\<bar> \<le> 2 ^ 20"
    and "vy v = 0 \<or> 1 / 2 ^ 20 \<le> \<bar>vy v\<bar> \<and> \<bar>vy v\<bar> \<le> 2 ^ 20"
    and "vz v = 0 \<or> 1 / 2 ^ 20 \<le> \<bar>vz v\<bar> \<and> \<bar>vz v\<bar> \<le> 2 ^ 20"
  shows "vec3f_normalize_f32 (make_vec3f 0 0 0) = make_vec3f 0 0 0 \<and>
         \<bar>vx (vec3f_normalize_f32 (vec3f_normalize_f32 v)) - vx (vec3f_normalize_f32 v)\<bar>
           \<le> \<bar>vx (vec3f_normalize_f32 v)\<bar> / 2 ^ 20 \<and>
         \<bar>vy (vec3f_normalize_f32 (vec3f_normalize_f32 v)) - vy (vec3f_normalize_f32 v)\<bar>
           \<le> \<bar>vy (vec3f_normalize_f32 v)\<bar> / 2 ^ 20 \<and>
         \<bar>vz (vec3f_normalize_f32 (vec3f_normalize_f32 v)) - vz (vec3f_normalize_f32 v)\<bar>
           \<le> \<bar>vz (vec3f_normalize_f32 v)\<bar> / 2 ^ 20 \<and>
         (vec3f_norm_f32 (vec3f_normalize_f32 v) = 1 \<longrightarrow>
            vec3f_normalize_f32 (vec3f_normalize_f32 v) = vec3f_normalize_f32 v) \<and>
         vec3f_normalize (make_vec3f 0 0 0) = make_vec3f 0 0 0 \<and>
         vec3f_normalize (vec3f_normalize v) = vec3f_normalize v"
proof (intro conjI impI)
  show "vec3f_normalize_f32 (make_vec3f 0 0 0) = make_vec3f 0 0 0"
    by (rule normalize_f32_zero)
  show "vec3f_normalize (make_vec3f 0 0 0) = make_vec3f 0 0 0"
    using normalize_zero by (simp add: make_vec3f_def)
  show "vec3f_normalize (vec3f_normalize v) = vec3f_normalize v"
    by (rule normalize_idem)
  show "\<bar>vx (vec3f_normalize_f32 (vec3f_normalize_f32 v)) - vx (vec3f_normalize_f32 v)\<bar>
           \<le> \<bar>vx (vec3f_normalize_f32 v)\<bar> / 2 ^ 20"
    by (rule normalize_f32_twice_close(1)[OF assms])
  show "\<bar>vy (vec3f_normalize_f32 (vec3f_normalize_f32 v)) - vy (vec3f_normalize_f32 v)\<bar>
           \<le> \<bar>vy (vec3f_normalize_f32 v)\<bar> / 2 ^ 20"
    by (rule normalize_f32_twice_close(2)[OF assms])
  show "\<bar>vz (vec3f_normalize_f32 (vec3f_normalize_f32 v)) - vz (vec3f_normalize_f32 v)\<bar>
           \<le> \<bar>vz (vec3f_normalize_f32 v)\<bar> / 2 ^ 20"
    by (rule normalize_f32_twice_close(3)[OF assms])
next
  assume "vec3f_norm_f32 (vec3f_normalize_f32 v) = 1"
  with normalize_f32_components[of v]
  show "vec3f_normalize_f32 (vec3f_normalize_f32 v) = vec3f_normalize_f32 v"
    by (intro normalize_f32_unit)
qed

text \<open>
  The vector \<open>(0, 3, 4)\<close>: its length is computed as \<open>5\<close>, its normalisation is
  \<open>(0, 0.6f, 0.8f)\<close>, whose squares \<open>0.36\<close> and \<open>0.64\<close> are rounded to a sum that is rounded to
  \<open>1\<close>, and the second normalisation returns the same three numbers.
\<close>

theorem normalize_idempotent_up_to_rounding_witness:
  "(vx \<lparr>vx = 0, vy = 3, vz = 4\<rparr> = (0 :: real)) \<and>
   (1 / 2 ^ 20 \<le> \<bar>vy \<lparr>vx = 0, vy = 3, vz = 4\<rparr>\<bar> \<and> \<bar>vy \<lparr>vx = 0, vy = 3, vz = 4\<rparr>\<bar> \<le> (2 ^ 20 :: real)) \<and>
   (1 / 2 ^ 20 \<le> \<bar>vz \<lparr>vx = 0, vy = 3, vz = 4\<rparr>\<bar> \<and> \<bar>vz \<lparr>vx = 0, vy = 3, vz = 4\<rparr>\<bar> \<le> (2 ^ 20 :: real)) \<and>
   vec3f_norm_f32 (vec3f_normalize_f32 \<lparr>vx = 0, vy = 3, vz = 4\<rparr>) = 1 \<and>
   vec3f_normalize_f32 (vec3f_normalize_f32 \<lparr>vx = 0, vy = 3, vz = 4\<rparr>) =
     \<lparr>vx = 0, vy = 10066330 / 2 ^ 24, vz = 13421773 / 2 ^ 24\<rparr>"
proof -
  let ?v = "\<lparr>vx = 0, vy = 3, vz = 4 :: real\<rparr>"
  have h1: "vx ?v = 0" by simp
  have h2: "1 / 2 ^ 20 \<le> \<bar>vy ?v\<bar> \<and> \<bar>vy ?v\<bar> \<le> 2 ^ 20" by simp
  have h3: "1 / 2 ^ 20 \<le> \<bar>vz ?v\<bar> \<and> \<bar>vz ?v\<bar> \<le> 2 ^ 20" by simp
  have n: "vec3f_norm_f32 (vec3f_normalize_f32 ?v) = 1"
    unfolding normalize_f32_034 by (rule norm_f32_normalized_034)
  from normalize_idempotent_up_to_rounding[OF disjI1[OF h1] disjI2[OF h2] disjI2[OF h3]] n
  have "vec3f_normalize_f32 (vec3f_normalize_f32 ?v) = vec3f_normalize_f32 ?v" by blast
  then have "vec3f_normalize_f32 (vec3f_normalize_f32 ?v) =
     \<lparr>vx = 0, vy = 10066330 / 2 ^ 24, vz = 13421773 / 2 ^ 24\<rparr>"
    unfolding normalize_f32_034 .
  with h1 h2 h3 n show ?thesis by blast
qed

text \<open>
  The two normalisations are not equal for every vector. The vector \<open>(1, 1, 0)\<close> has the
  computed length \<open>11863283 / 2 ^ 23\<close> (the rounded \<open>\<surd>2\<close>) and is normalised to
  \<open>(11863283 / 2 ^ 24, 11863283 / 2 ^ 24, 0)\<close>, the bit pattern \<^verbatim>\<open>0x3f3504f3\<close> twice. The
  length of that vector is computed as \<open>1 - 2 ^ -24\<close>, and dividing by it moves both
  components up by one unit in the last place, to \<^verbatim>\<open>0x3f3504f4\<close>.
\<close>

theorem normalize_f32_not_idempotent:
  "vec3f_normalize_f32 \<lparr>vx = 1, vy = 1, vz = 0\<rparr> =
     \<lparr>vx = 11863283 / 2 ^ 24, vy = 11863283 / 2 ^ 24, vz = 0\<rparr> \<and>
   vec3f_normalize_f32 (vec3f_normalize_f32 \<lparr>vx = 1, vy = 1, vz = 0\<rparr>) =
     \<lparr>vx = 11863284 / 2 ^ 24, vy = 11863284 / 2 ^ 24, vz = 0\<rparr> \<and>
   vec3f_normalize_f32 (vec3f_normalize_f32 \<lparr>vx = 1, vy = 1, vz = 0\<rparr>) \<noteq>
     vec3f_normalize_f32 \<lparr>vx = 1, vy = 1, vz = 0\<rparr>"
proof (intro conjI)
  show "vec3f_normalize_f32 \<lparr>vx = 1, vy = 1, vz = 0\<rparr> =
     \<lparr>vx = 11863283 / 2 ^ 24, vy = 11863283 / 2 ^ 24, vz = 0\<rparr>"
    by (rule normalize_f32_110)
  show "vec3f_normalize_f32 (vec3f_normalize_f32 \<lparr>vx = 1, vy = 1, vz = 0\<rparr>) =
     \<lparr>vx = 11863284 / 2 ^ 24, vy = 11863284 / 2 ^ 24, vz = 0\<rparr>"
    unfolding normalize_f32_110 by (rule normalize_f32_twice_110)
  show "vec3f_normalize_f32 (vec3f_normalize_f32 \<lparr>vx = 1, vy = 1, vz = 0\<rparr>) \<noteq>
     vec3f_normalize_f32 \<lparr>vx = 1, vy = 1, vz = 0\<rparr>"
    unfolding normalize_f32_110 normalize_f32_twice_110 by simp
qed

section \<open>The noise pipeline in binary32\<close>

lemma hash_f32_range: "0 \<le> hash_f32 n \<and> hash_f32 n \<le> 1"
proof -
  define P where "P = to_double (sin_f64 n * to_float 43758.5453)"
  have "0 \<le> P - of_int \<lfloor>P\<rfloor>" "P - of_int \<lfloor>P\<rfloor> \<le> 1" by linarith+
  then have "0 \<le> to_double (P - of_int \<lfloor>P\<rfloor>)" "to_double (P - of_int \<lfloor>P\<rfloor>) \<le> 1"
    by (simp_all add: to_double_nonneg to_double_le_one)
  then have "0 \<le> to_float (to_double (P - of_int \<lfloor>P\<rfloor>))"
    "to_float (to_double (P - of_int \<lfloor>P\<rfloor>)) \<le> 1"
    by (simp_all add: to_float_nonneg to_float_le_one)
  then show ?thesis by (simp add: hash_f32_def P_def)
qed

lemma hash_f32_float [simp]: "to_float (hash_f32 n) = hash_f32 n"
  by (simp add: hash_f32_def)

lemma lerp_f32_float [simp]: "to_float (lerp_f32 v0 v1 t) = lerp_f32 v0 v1 t"
  by (simp add: lerp_f32_def)

lemma lerp_f32_range:
  assumes v0: "0 \<le> v0" "v0 \<le> 1" "to_float v0 = v0" and v1: "0 \<le> v1" "v1 \<le> 1"
  shows "0 \<le> lerp_f32 v0 v1 t \<and> lerp_f32 v0 v1 t \<le> 1"
proof -
  define s where "s = max 0 (min 1 t)"
  define d where "d = to_float (v1 - v0)"
  define e where "e = to_float (d * s)"
  define eps :: real where "eps = 1 / 2 ^ 25"
  have s: "0 \<le> s" "s \<le> 1" by (simp_all add: s_def)
  have dd: "to_float d = d" by (simp add: d_def)
  have r: "lerp_f32 v0 v1 t = to_float (v0 + e)"
    by (simp add: lerp_f32_def e_def d_def s_def)
  show ?thesis
  proof (cases "v0 \<le> v1")
    case True
    then have d0: "0 \<le> d" unfolding d_def by (intro to_float_nonneg) simp
    have "\<bar>v1 - v0\<bar> * 2 ^ 24 \<le> 2 ^ 24" using v0 v1 True by simp
    then have "\<bar>to_float (v1 - v0) - (v1 - v0)\<bar> \<le> 1 / (2 * 2 ^ 24)"
      by (rule to_float_error) simp
    then have "\<bar>d - (v1 - v0)\<bar> \<le> eps" by (simp add: d_def eps_def)
    then have d1: "d \<le> 1 - v0 + eps" using v1 by linarith
    have "0 \<le> d * s" using d0 s by simp
    then have e0: "0 \<le> e" unfolding e_def by (rule to_float_nonneg)
    have "d * s \<le> d * 1" using d0 s by (intro mult_left_mono) simp_all
    then have "e \<le> to_float d" unfolding e_def by (intro to_float_mono) simp
    then have e1: "e \<le> d" by (simp add: dd)
    have "0 \<le> to_float (v0 + e)" using v0 e0 by (intro to_float_nonneg) simp
    moreover have "v0 + e \<le> 1 + eps" using e1 d1 by linarith
    then have "to_float (v0 + e) \<le> to_float (1 + 1 / 2 ^ 25)"
      unfolding eps_def by (rule to_float_mono)
    ultimately show ?thesis unfolding r to_float_one_plus by simp
  next
    case False
    then have d0: "d \<le> 0" unfolding d_def by (intro to_float_nonpos) simp
    have "to_float (- v0) \<le> to_float (v1 - v0)" using v1 by (intro to_float_mono) simp
    then have d1: "- v0 \<le> d" by (simp add: d_def to_float_minus v0)
    have "d * s \<le> 0" using d0 s by (simp add: mult_nonpos_nonneg)
    then have e0: "e \<le> 0" unfolding e_def by (rule to_float_nonpos)
    have "d * 1 \<le> d * s" using d0 s by (intro mult_left_mono_neg) simp_all
    then have "to_float d \<le> e" unfolding e_def by (intro to_float_mono) simp
    then have e1: "d \<le> e" by (simp add: dd)
    have "0 \<le> to_float (v0 + e)" using d1 e1 by (intro to_float_nonneg) simp
    moreover have "to_float (v0 + e) \<le> 1" using v0 e0 by (intro to_float_le_one) simp
    ultimately show ?thesis unfolding r by simp
  qed
qed

lemma noise_f32_range: "0 \<le> noise_f32 x \<and> noise_f32 x \<le> 1"
proof -
  have h: "0 \<le> hash_f32 n" "hash_f32 n \<le> 1" for n using hash_f32_range[of n] by simp_all
  have l1: "0 \<le> lerp_f32 (hash_f32 a) (hash_f32 b) t \<and> lerp_f32 (hash_f32 a) (hash_f32 b) t \<le> 1"
    for a b t by (intro lerp_f32_range h) simp
  have l2: "0 \<le> lerp_f32 (lerp_f32 (hash_f32 a) (hash_f32 b) t) (lerp_f32 (hash_f32 c) (hash_f32 d) t) u \<and>
      lerp_f32 (lerp_f32 (hash_f32 a) (hash_f32 b) t) (lerp_f32 (hash_f32 c) (hash_f32 d) t) u \<le> 1"
    for a b c d t u using l1[of a b t] l1[of c d t] by (intro lerp_f32_range) simp_all
  show ?thesis
    unfolding noise_f32_def Let_def
    by (intro lerp_f32_range) (simp_all add: l2)
qed

lemma noise_f32_float [simp]: "to_float (noise_f32 x) = noise_f32 x"
  by (simp add: noise_f32_def Let_def)

lemma fbm_f32_step:
  assumes "0 \<le> f" "f \<le> A" "0 \<le> n" "n \<le> 1" "0 \<le> w"
    and "to_double w = w" "to_double (A + w) = A + w" "to_float (A + w) = A + w"
  shows "0 \<le> to_float (to_double (f + to_double (w * n))) \<and>
         to_float (to_double (f + to_double (w * n))) \<le> A + w"
proof -
  have "0 \<le> w * n" using assms(3,5) by simp
  then have t0: "0 \<le> to_double (w * n)" by (rule to_double_nonneg)
  have "w * n \<le> w * 1" using assms(4,5) by (intro mult_left_mono) simp_all
  then have "to_double (w * n) \<le> to_double w" by (intro to_double_mono) simp
  then have t1: "to_double (w * n) \<le> w" by (simp add: assms(6))
  have "f + to_double (w * n) \<le> A + w" using assms(2) t1 by linarith
  then have "to_double (f + to_double (w * n)) \<le> to_double (A + w)" by (rule to_double_mono)
  then have "to_float (to_double (f + to_double (w * n))) \<le> to_float (A + w)"
    unfolding assms(7) by (rule to_float_mono)
  moreover have "0 \<le> to_float (to_double (f + to_double (w * n)))"
    using assms(1) t0 by (intro to_float_nonneg to_double_nonneg) simp
  ultimately show ?thesis by (simp add: assms(8))
qed

lemma fbm_f32_range:
  "0 \<le> fractal_brownian_motion_f32 x \<and> fractal_brownian_motion_f32 x \<le> 1"
proof -
  define p1 where "p1 = rotate_f32 x"
  define p2 where "p2 = vec3f_scale_f32 p1 (to_float 2.32)"
  define p3 where "p3 = vec3f_scale_f32 p2 (to_float 3.03)"
  define p4 where "p4 = vec3f_scale_f32 p3 (to_float 2.61)"
  define f1 where "f1 = to_float (to_double (0 + to_double (1 / 2 * noise_f32 p1)))"
  define f2 where "f2 = to_float (to_double (f1 + to_double (1 / 4 * noise_f32 p2)))"
  define f3 where "f3 = to_float (to_double (f2 + to_double (1 / 8 * noise_f32 p3)))"
  define f4 where "f4 = to_float (to_double (f3 + to_double (1 / 16 * noise_f32 p4)))"
  have eq: "fractal_brownian_motion_f32 x = to_float (to_double (f4 / (15 / 16)))"
    by (simp add: fractal_brownian_motion_f32_def Let_def p1_def p2_def p3_def p4_def
        f1_def f2_def f3_def f4_def)
  have n: "0 \<le> noise_f32 p" "noise_f32 p \<le> 1" for p using noise_f32_range[of p] by simp_all
  have d: "to_double (1 / 2) = 1 / 2" "to_double (1 / 4) = 1 / 4" "to_double (1 / 8) = 1 / 8"
    "to_double (1 / 16) = 1 / 16" "to_double (3 / 4) = 3 / 4" "to_double (7 / 8) = 7 / 8"
    "to_double (15 / 16) = 15 / 16"
    using to_double_dyadic[of 1 1] to_double_dyadic[of 1 2] to_double_dyadic[of 1 3]
      to_double_dyadic[of 1 4] to_double_dyadic[of 3 2] to_double_dyadic[of 7 3]
      to_double_dyadic[of 15 4] by simp_all
  have t: "to_float (1 / 2) = 1 / 2" "to_float (3 / 4) = 3 / 4" "to_float (7 / 8) = 7 / 8"
    "to_float (15 / 16) = 15 / 16"
    using to_float_dyadic[of 1 1] to_float_dyadic[of 3 2] to_float_dyadic[of 7 3]
      to_float_dyadic[of 15 4] by simp_all
  have b1: "0 \<le> f1 \<and> f1 \<le> 0 + 1 / 2"
    unfolding f1_def by (rule fbm_f32_step) (simp_all add: n d t)
  have b2: "0 \<le> f2 \<and> f2 \<le> 1 / 2 + 1 / 4"
    unfolding f2_def using b1 by (intro fbm_f32_step) (simp_all add: n d t)
  have b3: "0 \<le> f3 \<and> f3 \<le> 3 / 4 + 1 / 8"
    unfolding f3_def using b2 by (intro fbm_f32_step) (simp_all add: n d t)
  have b4: "0 \<le> f4 \<and> f4 \<le> 7 / 8 + 1 / 16"
    unfolding f4_def using b3 by (intro fbm_f32_step) (simp_all add: n d t)
  then have "0 \<le> f4 / (15 / 16)" "f4 / (15 / 16) \<le> 1" by simp_all
  then have "0 \<le> to_float (to_double (f4 / (15 / 16)))" "to_float (to_double (f4 / (15 / 16))) \<le> 1"
    by (simp_all add: to_float_nonneg to_double_nonneg to_float_le_one to_double_le_one)
  then show ?thesis unfolding eq by simp
qed

lemma fbm_f32_float [simp]:
  "to_float (fractal_brownian_motion_f32 x) = fractal_brownian_motion_f32 x"
  by (simp add: fractal_brownian_motion_f32_def Let_def)

lemma displacement_f32_eq:
  "displacement_f32 p = - fractal_brownian_motion_f32 (vec3f_scale_f32 p (to_float 3.4))"
  by (simp add: displacement_f32_def noise_amplitude_def to_float_minus)

lemma displacement_f32_range: "- 1 \<le> displacement_f32 p \<and> displacement_f32 p \<le> 0"
  using fbm_f32_range[of "vec3f_scale_f32 p (to_float 3.4)"] by (simp add: displacement_f32_eq)

subsection \<open>An argument at which the hash is 1\<close>

text \<open>
  At \<open>n = - 2 ^ -41\<close> the sine differs from \<open>n\<close> by less than \<open>2 ^ -123\<close> and is rounded to
  \<open>n\<close>; the product with \<^verbatim>\<open>43758.5453f\<close> \<open>= 11202188 / 2 ^ 8\<close> is \<open>- 11202188 / 2 ^ 49\<close>,
  its floor is \<open>- 1\<close>, and the difference \<open>1 - 11202188 / 2 ^ 49\<close>, a \<^verbatim>\<open>double\<close>, lies above
  the midpoint \<open>1 - 2 ^ -25\<close> of the two nearest \<^verbatim>\<open>float\<close> numbers \<open>1 - 2 ^ -24\<close> and \<open>1\<close>.
\<close>

lemma hash_constant_f32: "to_float 43758.5453 = 11202188 / 2 ^ 8"
proof -
  have "to_float 43758.5453 = of_int 11202188 / 2 ^ 8"
    by (intro to_float_near) simp_all
  then show ?thesis by simp
qed

lemma sin_near_arg: "\<bar>sin x - x\<bar> \<le> \<bar>x\<bar> ^ 3 / 6" for x :: real
proof -
  have "(\<Sum>m<3. sin_coeff m * x ^ m) = x"
    by (simp add: eval_nat_numeral sin_coeff_def)
  with Maclaurin_sin_bound[of x 3] show ?thesis
    by (simp add: eval_nat_numeral inverse_eq_divide)
qed

lemma sin_f64_tiny: "sin_f64 (- (1 / 2 ^ 41)) = - (1 / 2 ^ 41)"
proof -
  define x :: real where "x = 1 / 2 ^ 41"
  have x: "0 < x" by (simp add: x_def)
  have a: "\<bar>sin x - x\<bar> \<le> x ^ 3 / 6" using sin_near_arg[of x] x by simp
  have b: "\<bar>sin x\<bar> \<le> x" using abs_sin_x_le_abs_x[of x] x by simp
  have c: "x ^ 3 / 6 * 2 ^ 94 < 1 / 2" by (simp add: x_def power_divide)
  have x94: "x * 2 ^ 94 = 2 ^ 53" by (simp add: x_def)
  have lo: "x - x ^ 3 / 6 \<le> sin x" and hi: "sin x \<le> x" using a b by (simp_all add: abs_le_iff)
  have s94lo: "2 ^ 53 - x ^ 3 / 6 * 2 ^ 94 \<le> sin x * 2 ^ 94"
  proof -
    have "(x - x ^ 3 / 6) * 2 ^ 94 \<le> sin x * 2 ^ 94" using lo by (intro mult_right_mono) simp_all
    then show ?thesis using x94 by (simp add: algebra_simps)
  qed
  have s94hi: "sin x * 2 ^ 94 \<le> 2 ^ 53"
  proof -
    have "sin x * 2 ^ 94 \<le> x * 2 ^ 94" using hi by (intro mult_right_mono) simp_all
    then show ?thesis using x94 by simp
  qed
  have pos: "0 \<le> sin x * 2 ^ 94" using s94lo c by simp
  then have abs: "\<bar>sin x\<bar> * 2 ^ 94 = sin x * 2 ^ 94" by (simp add: abs_mult[symmetric] del: abs_mult)
  have "to_double (sin x) = of_int (2 ^ 53) / 2 ^ 94"
  proof (rule to_double_near)
    show "(94 :: nat) \<le> 1074" by simp
    show "2 ^ 52 \<le> \<bar>sin x\<bar> * 2 ^ 94" unfolding abs using s94lo c by simp
    show "\<bar>sin x\<bar> * 2 ^ 94 \<le> 2 ^ 53" unfolding abs using s94hi by simp
    show "of_int (2 ^ 53) - 1 / 2 < sin x * 2 ^ 94" using s94lo c by simp
    show "sin x * 2 ^ 94 < of_int (2 ^ 53) + 1 / 2" using s94hi by simp
  qed
  then have "to_double (sin x) = x" by (simp add: x_def)
  then show ?thesis
    unfolding sin_f64_def x_def[symmetric] by (simp add: to_double_minus)
qed

lemma hash_f32_tiny_negative: "hash_f32 (- (1 / 2 ^ 41)) = 1"
proof -
  define P :: real where "P = - (11202188 / 2 ^ 49)"
  have p: "to_double (sin_f64 (- (1 / 2 ^ 41)) * to_float 43758.5453) = P"
  proof -
    have "sin_f64 (- (1 / 2 ^ 41)) * to_float 43758.5453 = of_int (- 11202188) / 2 ^ 49"
      unfolding sin_f64_tiny hash_constant_f32 by simp
    moreover have "to_double (of_int (- 11202188) / 2 ^ 49) = of_int (- 11202188) / 2 ^ 49"
      by (rule to_double_dyadic) simp_all
    ultimately show ?thesis by (simp add: P_def)
  qed
  have fl: "\<lfloor>P\<rfloor> = - 1" unfolding P_def by (intro floor_unique) simp_all
  have d: "to_double (P - of_int \<lfloor>P\<rfloor>) = 562949942219124 / 2 ^ 49"
  proof -
    have e: "P - of_int \<lfloor>P\<rfloor> = of_int 562949942219124 / 2 ^ 49" unfolding fl P_def by simp
    show ?thesis unfolding e using to_double_dyadic[of 562949942219124 49] by simp
  qed
  have "to_float (562949942219124 / 2 ^ 49) = of_int 16777216 / 2 ^ 24"
    by (intro to_float_near) simp_all
  then have "to_float (562949942219124 / 2 ^ 49) = 1" by simp
  then show ?thesis unfolding hash_f32_def p d .
qed

text \<open>
  Claim C9, as it holds of the program in binary32. The hash lies in the closed
  interval \<open>[0, 1]\<close>: it is the fractional part of a \<^verbatim>\<open>double\<close>, rounded twice. The noise
  is a nested blend of eight hash values with clamped parameters, and every blend of
  two numbers of \<open>[0, 1]\<close> is rounded into \<open>[0, 1]\<close>; the partial sums of the fractal sum
  are bounded by \<open>1/2\<close>, \<open>3/4\<close>, \<open>7/8\<close>, \<open>15/16\<close>, which are numbers of the format, so that the
  quotient by \<open>0.9375\<close> lies in \<open>[0, 1]\<close>; the displacement of the distance field,
  \<open>- fbm (p * 3.4) * amplitude\<close>, lies in \<open>[-1, 0]\<close>. The point is taken with coordinates
  of magnitude at most \<open>2 ^ 100\<close>, for which the lattice index \<open>dot p (1, 57, 113)\<close> does
  not overflow.
\<close>

theorem noise_pipeline_ranges_f32:
  assumes "\<bar>vx x\<bar> \<le> 2 ^ 100" "\<bar>vy x\<bar> \<le> 2 ^ 100" "\<bar>vz x\<bar> \<le> 2 ^ 100"
  shows "(0 \<le> hash_f32 n \<and> hash_f32 n \<le> 1) \<and>
         (0 \<le> noise_f32 x \<and> noise_f32 x \<le> 1) \<and>
         (0 \<le> fractal_brownian_motion_f32 x \<and> fractal_brownian_motion_f32 x \<le> 1) \<and>
         (- 1 \<le> displacement_f32 x \<and> displacement_f32 x \<le> 0)"
  using hash_f32_range[of n] noise_f32_range[of x] fbm_f32_range[of x] displacement_f32_range[of x]
  by simp

text \<open>
  A point of the scene, and the argument at which the hash takes the value \<open>1\<close>.
\<close>

theorem noise_pipeline_ranges_f32_witness:
  "\<bar>vx \<lparr>vx = 1 / 2, vy = - 7 / 4, vz = 3\<rparr>\<bar> \<le> 2 ^ 100 \<and>
   \<bar>vy \<lparr>vx = 1 / 2, vy = - 7 / 4, vz = 3\<rparr>\<bar> \<le> 2 ^ 100 \<and>
   \<bar>vz \<lparr>vx = 1 / 2, vy = - 7 / 4, vz = 3\<rparr>\<bar> \<le> 2 ^ 100 \<and>
   hash_f32 (- (1 / 2 ^ 41)) = 1 \<and>
   (0 \<le> noise_f32 \<lparr>vx = 1 / 2, vy = - 7 / 4, vz = 3\<rparr> \<and>
    noise_f32 \<lparr>vx = 1 / 2, vy = - 7 / 4, vz = 3\<rparr> \<le> 1) \<and>
   (0 \<le> fractal_brownian_motion_f32 \<lparr>vx = 1 / 2, vy = - 7 / 4, vz = 3\<rparr> \<and>
    fractal_brownian_motion_f32 \<lparr>vx = 1 / 2, vy = - 7 / 4, vz = 3\<rparr> \<le> 1) \<and>
   (- 1 \<le> displacement_f32 \<lparr>vx = 1 / 2, vy = - 7 / 4, vz = 3\<rparr> \<and>
    displacement_f32 \<lparr>vx = 1 / 2, vy = - 7 / 4, vz = 3\<rparr> \<le> 0)"
proof -
  let ?x = "\<lparr>vx = 1 / 2, vy = - 7 / 4, vz = 3 :: real\<rparr>"
  have h: "\<bar>vx ?x\<bar> \<le> 2 ^ 100" "\<bar>vy ?x\<bar> \<le> 2 ^ 100" "\<bar>vz ?x\<bar> \<le> 2 ^ 100" by simp_all
  from noise_pipeline_ranges_f32[OF h, of "- (1 / 2 ^ 41)"] h hash_f32_tiny_negative
  show ?thesis by blast
qed

text \<open>
  The hash is not below \<open>1\<close> for every finite argument: \<open>- 2 ^ -41\<close> is a number of
  the format at which it is \<open>1\<close>.
\<close>

theorem hash_f32_reaches_one:
  "to_float (- (1 / 2 ^ 41)) = - (1 / 2 ^ 41) \<and>
   hash_f32 (- (1 / 2 ^ 41)) = 1 \<and>
   \<not> hash_f32 (- (1 / 2 ^ 41)) < 1"
proof -
  have "to_float (of_int (- 1) / 2 ^ 41) = of_int (- 1) / 2 ^ 41"
    by (rule to_float_dyadic) simp_all
  then have "to_float (- (1 / 2 ^ 41)) = - (1 / 2 ^ 41)" by simp
  then show ?thesis unfolding hash_f32_tiny_negative by simp
qed

section \<open>The ray marcher in binary32\<close>

lemma sphere_trace_loop_f32_char:
  "i \<le> 128 \<Longrightarrow>
   sphere_trace_loop_f32 i (march_pos_f32 orig dir i) dir =
     (if \<exists>k. i \<le> k \<and> k < 128 \<and> signed_distance_f32 (march_pos_f32 orig dir k) < 0
      then Some (march_pos_f32 orig dir
                   (LEAST k. i \<le> k \<and> signed_distance_f32 (march_pos_f32 orig dir k) < 0))
      else None)"
proof (induction "128 - i" arbitrary: i)
  case 0
  then have "i = 128" by simp
  then show ?case by (simp add: sphere_trace_loop_f32.simps)
next
  case (Suc n)
  then have i: "i < 128" by simp
  let ?P = "\<lambda>k. signed_distance_f32 (march_pos_f32 orig dir k) < 0"
  show ?case
  proof (cases "?P i")
    case True
    have "(LEAST k. i \<le> k \<and> ?P k) = i"
      using True by (intro Least_equality) auto
    moreover have "\<exists>k. i \<le> k \<and> k < 128 \<and> ?P k" using True i by blast
    ultimately show ?thesis
      using True i by (subst sphere_trace_loop_f32.simps) (simp add: Let_def)
  next
    case False
    have h: "(i \<le> k \<and> ?P k) = (i + 1 \<le> k \<and> ?P k)" for k
      using False by (cases "k = i") auto
    have eq: "(\<lambda>k. i \<le> k \<and> ?P k) = (\<lambda>k. i + 1 \<le> k \<and> ?P k)"
      using h by (simp add: fun_eq_iff)
    have ex: "(\<exists>k. i \<le> k \<and> k < 128 \<and> ?P k) = (\<exists>k. i + 1 \<le> k \<and> k < 128 \<and> ?P k)"
      using h by blast
    have IH: "sphere_trace_loop_f32 (i + 1) (march_pos_f32 orig dir (i + 1)) dir =
        (if \<exists>k. i + 1 \<le> k \<and> k < 128 \<and> ?P k
         then Some (march_pos_f32 orig dir (LEAST k. i + 1 \<le> k \<and> ?P k)) else None)"
      using Suc(1)[of "i + 1"] Suc(2) i by simp
    have "sphere_trace_loop_f32 i (march_pos_f32 orig dir i) dir =
          sphere_trace_loop_f32 (i + 1) (march_pos_f32 orig dir (i + 1)) dir"
      using False i by (subst sphere_trace_loop_f32.simps) (simp add: Let_def march_step_f32_def)
    then show ?thesis
      unfolding IH ex eq by simp
  qed
qed

lemma sphere_trace_f32_char:
  "sphere_trace_f32 orig dir =
     (if \<exists>k<128. signed_distance_f32 (march_pos_f32 orig dir k) < 0
      then Some (march_pos_f32 orig dir (LEAST k. signed_distance_f32 (march_pos_f32 orig dir k) < 0))
      else None)"
  using sphere_trace_loop_f32_char[of 0 orig dir] by (simp add: sphere_trace_f32_def)

subsection \<open>A ray that takes steps before it hits\<close>

text \<open>
  The ray from \<open>(3/2, 1/4, 0)\<close> in the direction \<open>(-1, 2 ^ -40, 0)\<close>. The second coordinate
  of every step is less than half a unit in the last place of \<open>1/4\<close>, so that the second
  coordinate of the position stays \<open>1/4\<close>, while the first decreases by at least
  \<open>5/512\<close> a step. At the start the field is not negative (the length is at least
  \<open>3/2\<close>); where the first coordinate is in \<open>[0, 3/8]\<close> the field is negative (the length is
  at most \<open>15/32\<close>, below the least radius \<open>1/2\<close>); a step is at most \<open>3/16\<close>, so that the
  walk cannot pass over that interval, and it reaches it within \<open>116\<close> steps.
\<close>

lemma sphere_radius_f32: "1 / 2 \<le> to_float (sphere_radius + displacement_f32 p)"
  "to_float (sphere_radius + displacement_f32 p) \<le> 3 / 2"
proof -
  have d: "- 1 \<le> displacement_f32 p" "displacement_f32 p \<le> 0"
    using displacement_f32_range[of p] by simp_all
  have "to_float (of_int 1 / 2 ^ 1) \<le> to_float (sphere_radius + displacement_f32 p)"
    using d by (intro to_float_mono) (simp add: sphere_radius_def)
  then show "1 / 2 \<le> to_float (sphere_radius + displacement_f32 p)"
    using to_float_dyadic[of 1 1] by simp
  have "to_float (sphere_radius + displacement_f32 p) \<le> to_float (of_int 3 / 2 ^ 1)"
    using d by (intro to_float_mono) (simp add: sphere_radius_def)
  then show "to_float (sphere_radius + displacement_f32 p) \<le> 3 / 2"
    using to_float_dyadic[of 3 1] by simp
qed

lemma norm_f32_mono_x:
  assumes "0 \<le> x" "x \<le> x'"
  shows "vec3f_norm_f32 \<lparr>vx = x, vy = y, vz = z\<rparr> \<le> vec3f_norm_f32 \<lparr>vx = x', vy = y, vz = z\<rparr>"
proof -
  have "x * x \<le> x' * x'" using assms by (intro mult_mono) simp_all
  then have "to_float (x * x) \<le> to_float (x' * x')" by (rule to_float_mono)
  then have "to_float (to_float (x * x) + to_float (y * y)) \<le> to_float (to_float (x' * x') + to_float (y * y))"
    by (intro to_float_mono) simp
  then have "to_float (to_float (to_float (x * x) + to_float (y * y)) + to_float (z * z))
      \<le> to_float (to_float (to_float (x' * x') + to_float (y * y)) + to_float (z * z))"
    by (intro to_float_mono) simp
  then show ?thesis
    unfolding vec3f_norm_f32_def by (intro to_float_mono) simp
qed

lemma norm_f32_low_x: "vec3f_norm_f32 \<lparr>vx = 3 / 8, vy = 1 / 4, vz = 0\<rparr> \<le> 15 / 32"
proof -
  have n: "vec3f_norm_f32 \<lparr>vx = 3 / 8, vy = 1 / 4, vz = 0\<rparr> = to_float (sqrt (13 / 64))"
  proof (rule vec3f_norm_f32_I[where a = "9 / 64" and b = "1 / 16" and c = 0
        and ?s1.0 = "13 / 64" and s = "13 / 64"])
    show "to_float (vx \<lparr>vx = 3 / 8, vy = 1 / 4, vz = 0\<rparr> * vx \<lparr>vx = 3 / 8, vy = 1 / 4, vz = 0\<rparr>) = 9 / 64"
      by (rule to_float_exact_eq[of _ _ 6 9]) simp_all
    show "to_float (vy \<lparr>vx = 3 / 8, vy = 1 / 4, vz = 0\<rparr> * vy \<lparr>vx = 3 / 8, vy = 1 / 4, vz = 0\<rparr>) = 1 / 16"
      by (rule to_float_exact_eq[of _ _ 4 1]) simp_all
    show "to_float (9 / 64 + 1 / 16) = 13 / 64"
      by (rule to_float_exact_eq[of _ _ 6 13]) simp_all
    show "to_float (13 / 64 + 0) = 13 / 64"
      by (rule to_float_exact_eq[of _ _ 6 13]) simp_all
  qed simp_all
  have "sqrt (13 / 64) \<le> 15 / 32"
    by (rule real_le_lsqrt) (simp_all add: power2_eq_square)
  then have "to_float (sqrt (13 / 64)) \<le> to_float (15 / 32)" by (rule to_float_mono)
  also have "to_float (15 / 32) = 15 / 32" by (rule to_float_exact_eq[of _ _ 5 15]) simp_all
  finally show ?thesis unfolding n .
qed

lemma norm_f32_high_x:
  "3 / 2 \<le> vec3f_norm_f32 \<lparr>vx = 3 / 2, vy = 1 / 4, vz = 0\<rparr>"
  "vec3f_norm_f32 \<lparr>vx = 3 / 2, vy = 1 / 4, vz = 0\<rparr> \<le> 2"
proof -
  have n: "vec3f_norm_f32 \<lparr>vx = 3 / 2, vy = 1 / 4, vz = 0\<rparr> = to_float (sqrt (37 / 16))"
  proof (rule vec3f_norm_f32_I[where a = "9 / 4" and b = "1 / 16" and c = 0
        and ?s1.0 = "37 / 16" and s = "37 / 16"])
    show "to_float (vx \<lparr>vx = 3 / 2, vy = 1 / 4, vz = 0\<rparr> * vx \<lparr>vx = 3 / 2, vy = 1 / 4, vz = 0\<rparr>) = 9 / 4"
      by (rule to_float_exact_eq[of _ _ 2 9]) simp_all
    show "to_float (vy \<lparr>vx = 3 / 2, vy = 1 / 4, vz = 0\<rparr> * vy \<lparr>vx = 3 / 2, vy = 1 / 4, vz = 0\<rparr>) = 1 / 16"
      by (rule to_float_exact_eq[of _ _ 4 1]) simp_all
    show "to_float (9 / 4 + 1 / 16) = 37 / 16"
      by (rule to_float_exact_eq[of _ _ 4 37]) simp_all
    show "to_float (37 / 16 + 0) = 37 / 16"
      by (rule to_float_exact_eq[of _ _ 4 37]) simp_all
  qed simp_all
  have "3 / 2 \<le> sqrt (37 / 16)"
    by (rule real_le_rsqrt) (simp add: power2_eq_square)
  then have "to_float (3 / 2) \<le> to_float (sqrt (37 / 16))" by (rule to_float_mono)
  moreover have "to_float (3 / 2) = 3 / 2" by (rule to_float_exact_eq[of _ _ 1 3]) simp_all
  ultimately show "3 / 2 \<le> vec3f_norm_f32 \<lparr>vx = 3 / 2, vy = 1 / 4, vz = 0\<rparr>" unfolding n by simp
  have "sqrt (37 / 16) \<le> 2"
    by (rule real_le_lsqrt) (simp_all add: power2_eq_square)
  then have "to_float (sqrt (37 / 16)) \<le> to_float 2" by (rule to_float_mono)
  then show "vec3f_norm_f32 \<lparr>vx = 3 / 2, vy = 1 / 4, vz = 0\<rparr> \<le> 2" unfolding n by simp
qed

lemma sd_f32_inside:
  assumes "0 \<le> x" "x \<le> 3 / 8"
  shows "signed_distance_f32 \<lparr>vx = x, vy = 1 / 4, vz = 0\<rparr> < 0"
proof -
  let ?p = "\<lparr>vx = x, vy = 1 / 4, vz = 0\<rparr>"
  have "vec3f_norm_f32 ?p \<le> 15 / 32"
    using norm_f32_mono_x[OF assms, of "1 / 4" 0] norm_f32_low_x by linarith
  then have "vec3f_norm_f32 ?p - to_float (sphere_radius + displacement_f32 ?p) \<le> - (1 / 32)"
    using sphere_radius_f32(1)[of ?p] by linarith
  then have "signed_distance_f32 ?p \<le> to_float (- (1 / 32))"
    unfolding signed_distance_f32_def Let_def by (rule to_float_mono)
  also have "to_float (- (1 / 32)) = - (1 / 32)"
    using to_float_dyadic[of "- 1" 5] by simp
  finally show ?thesis by simp
qed

lemma sd_f32_start: "0 \<le> signed_distance_f32 \<lparr>vx = 3 / 2, vy = 1 / 4, vz = 0\<rparr>"
proof -
  let ?p = "\<lparr>vx = 3 / 2, vy = 1 / 4, vz = 0 :: real\<rparr>"
  have "0 \<le> vec3f_norm_f32 ?p - to_float (sphere_radius + displacement_f32 ?p)"
    using norm_f32_high_x(1) sphere_radius_f32(2)[of ?p] by linarith
  then show ?thesis
    unfolding signed_distance_f32_def Let_def by (rule to_float_nonneg)
qed

lemma sd_f32_upper:
  assumes "0 \<le> x" "x \<le> 3 / 2"
  shows "signed_distance_f32 \<lparr>vx = x, vy = 1 / 4, vz = 0\<rparr> \<le> 3 / 2"
proof -
  let ?p = "\<lparr>vx = x, vy = 1 / 4, vz = 0\<rparr>"
  have "vec3f_norm_f32 ?p \<le> 2"
    using norm_f32_mono_x[OF assms, of "1 / 4" 0] norm_f32_high_x(2) by linarith
  then have "vec3f_norm_f32 ?p - to_float (sphere_radius + displacement_f32 ?p) \<le> 3 / 2"
    using sphere_radius_f32(1)[of ?p] by linarith
  then have "signed_distance_f32 ?p \<le> to_float (3 / 2)"
    unfolding signed_distance_f32_def Let_def by (rule to_float_mono)
  also have "to_float (3 / 2) = 3 / 2" using to_float_dyadic[of 3 1] by simp
  finally show ?thesis .
qed

lemma step_constants_f32:
  "to_float 0.1 = 13421773 / 2 ^ 27" "to_float 0.01 = 10737418 / 2 ^ 30"
proof -
  have "to_float 0.1 = of_int 13421773 / 2 ^ 27" by (intro to_float_near) simp_all
  then show "to_float 0.1 = 13421773 / 2 ^ 27" by simp
  have "to_float 0.01 = of_int 10737418 / 2 ^ 30" by (intro to_float_near) simp_all
  then show "to_float 0.01 = 10737418 / 2 ^ 30" by simp
qed

lemma march_step_f32_float [simp]: "to_float (march_step_f32 pos) = march_step_f32 pos"
  by (simp add: march_step_f32_def max_def)

lemma march_step_f32_lower: "10737418 / 2 ^ 30 \<le> march_step_f32 pos"
  unfolding march_step_f32_def step_constants_f32 by (rule max.cobounded2)

lemma march_step_f32_upper:
  assumes "0 \<le> x" "x \<le> 3 / 2"
  shows "march_step_f32 \<lparr>vx = x, vy = 1 / 4, vz = 0\<rparr> \<le> 3 / 16"
proof -
  let ?d = "signed_distance_f32 \<lparr>vx = x, vy = 1 / 4, vz = 0\<rparr>"
  have "?d * (13421773 / 2 ^ 27) \<le> 3 / 2 * (13421773 / 2 ^ 27)"
    using sd_f32_upper[OF assms] by (intro mult_right_mono) simp_all
  also have "\<dots> \<le> 3 / 16" by simp
  finally have "to_float (?d * (13421773 / 2 ^ 27)) \<le> to_float (3 / 16)" by (rule to_float_mono)
  moreover have "to_float (3 / 16) = 3 / 16" using to_float_dyadic[of 3 4] by simp
  ultimately have "to_float (?d * (13421773 / 2 ^ 27)) \<le> 3 / 16" by simp
  moreover have "10737418 / 2 ^ 30 \<le> (3 / 16 :: real)" by simp
  ultimately show ?thesis
    unfolding march_step_f32_def step_constants_f32 by (rule max.boundedI)
qed

lemma to_float_quarter_plus:
  assumes "0 \<le> e" "e \<le> 1 / 2 ^ 40"
  shows "to_float (1 / 4 + e) = 1 / 4"
proof -
  have q: "to_float (1 / 4) = 1 / 4" by (rule to_float_exact_eq[of _ _ 2 1]) simp_all
  have "to_float (1 / 4 + 1 / 2 ^ 40) = of_int 8388608 / 2 ^ 25"
    by (intro to_float_near) simp_all
  then have "to_float (1 / 4 + 1 / 2 ^ 40) = 1 / 4" by simp
  moreover have "to_float (1 / 4 + e) \<le> to_float (1 / 4 + 1 / 2 ^ 40)"
    using assms by (intro to_float_mono) simp
  moreover have "to_float (1 / 4) \<le> to_float (1 / 4 + e)"
    using assms by (intro to_float_mono) simp
  ultimately show ?thesis using q by simp
qed

lemma march_f32_step:
  assumes x: "3 / 8 < x" "x \<le> 3 / 2"
  defines "p \<equiv> \<lparr>vx = x, vy = 1 / 4, vz = 0\<rparr>"
  defines "p' \<equiv> vec3f_add_f32 p (vec3f_scale_f32 \<lparr>vx = - 1, vy = 1 / 2 ^ 40, vz = 0\<rparr> (march_step_f32 p))"
  shows "vy p' = 1 / 4" "vz p' = 0" "0 \<le> vx p'" "vx p' \<le> x - 5 / 512"
proof -
  define s where "s = march_step_f32 p"
  have s: "10737418 / 2 ^ 30 \<le> s" "s \<le> 3 / 16" "to_float s = s"
    unfolding s_def p_def using march_step_f32_lower march_step_f32_upper[of x] x by simp_all
  have p': "p' = vec3f_add_f32 p (vec3f_scale_f32 \<lparr>vx = - 1, vy = 1 / 2 ^ 40, vz = 0\<rparr> s)"
    by (simp add: p'_def s_def)
  have xs: "vx p' = to_float (x - s)"
    by (simp add: p' p_def vec3f_add_f32_def vec3f_scale_f32_def to_float_minus s(3))
  show "vz p' = 0" by (simp add: p' p_def vec3f_add_f32_def vec3f_scale_f32_def)
  have "0 \<le> 1 / 2 ^ 40 * s" using s(1) by simp
  then have e0: "0 \<le> to_float (1 / 2 ^ 40 * s)" by (rule to_float_nonneg)
  have "1 / 2 ^ 40 * s \<le> 1 / 2 ^ 40 * 1" using s(2) by (intro mult_left_mono) simp_all
  then have "to_float (1 / 2 ^ 40 * s) \<le> to_float (of_int 1 / 2 ^ 40)"
    by (intro to_float_mono) simp
  then have e1: "to_float (1 / 2 ^ 40 * s) \<le> 1 / 2 ^ 40"
    using to_float_dyadic[of 1 40] by simp
  show "vy p' = 1 / 4"
    using to_float_quarter_plus[OF e0 e1]
    by (simp add: p' p_def vec3f_add_f32_def vec3f_scale_f32_def)
  have "0 \<le> x - s" using x s(2) by linarith
  then show "0 \<le> vx p'" unfolding xs by (rule to_float_nonneg)
  define eps :: real where "eps = 1 / (2 * 2 ^ 23)"
  define c0 :: real where "c0 = 10737418 / 2 ^ 30"
  have s0: "0 \<le> s" by (rule order_trans[OF _ s(1)]) simp
  have "\<bar>x - s\<bar> \<le> 2" using x s(2) s0 by linarith
  then have "\<bar>x - s\<bar> * 2 ^ 23 \<le> 2 ^ 24" by simp
  then have "\<bar>to_float (x - s) - (x - s)\<bar> \<le> eps"
    unfolding eps_def by (rule to_float_error) simp
  then have "to_float (x - s) \<le> x - s + eps" by linarith
  moreover have "eps - c0 \<le> - (5 / 512)" by (simp add: eps_def c0_def)
  moreover have "c0 \<le> s" using s(1) by (simp add: c0_def)
  ultimately show "vx p' \<le> x - 5 / 512" unfolding xs by linarith
qed

lemma march_f32_invariant:
  assumes "\<forall>j<k. \<not> signed_distance_f32
             (march_pos_f32 \<lparr>vx = 3 / 2, vy = 1 / 4, vz = 0\<rparr> \<lparr>vx = - 1, vy = 1 / 2 ^ 40, vz = 0\<rparr> j) < 0"
  shows "vy (march_pos_f32 \<lparr>vx = 3 / 2, vy = 1 / 4, vz = 0\<rparr> \<lparr>vx = - 1, vy = 1 / 2 ^ 40, vz = 0\<rparr> k) = 1 / 4 \<and>
         vz (march_pos_f32 \<lparr>vx = 3 / 2, vy = 1 / 4, vz = 0\<rparr> \<lparr>vx = - 1, vy = 1 / 2 ^ 40, vz = 0\<rparr> k) = 0 \<and>
         0 \<le> vx (march_pos_f32 \<lparr>vx = 3 / 2, vy = 1 / 4, vz = 0\<rparr> \<lparr>vx = - 1, vy = 1 / 2 ^ 40, vz = 0\<rparr> k) \<and>
         vx (march_pos_f32 \<lparr>vx = 3 / 2, vy = 1 / 4, vz = 0\<rparr> \<lparr>vx = - 1, vy = 1 / 2 ^ 40, vz = 0\<rparr> k)
           \<le> 3 / 2 - real k * (5 / 512)"
  using assms
proof (induction k)
  case 0
  show ?case by simp
next
  case (Suc k)
  let ?P = "march_pos_f32 \<lparr>vx = 3 / 2, vy = 1 / 4, vz = 0\<rparr> \<lparr>vx = - 1, vy = 1 / 2 ^ 40, vz = 0\<rparr>"
  define x where "x = vx (?P k)"
  from Suc.prems have prev: "\<forall>j<k. \<not> signed_distance_f32 (?P j) < 0" by simp
  from Suc.IH[OF prev] have inv: "vy (?P k) = 1 / 4" "vz (?P k) = 0" "0 \<le> x"
    "x \<le> 3 / 2 - real k * (5 / 512)" by (simp_all add: x_def)
  have pk: "?P k = \<lparr>vx = x, vy = 1 / 4, vz = 0\<rparr>"
    using inv(1,2) by (simp add: x_def)
  from Suc.prems have "\<not> signed_distance_f32 (?P k) < 0" by simp
  then have x38: "3 / 8 < x"
    using sd_f32_inside[OF inv(3)] unfolding pk by fastforce
  have "0 \<le> real k * (5 / 512)" by simp
  then have x32: "x \<le> 3 / 2" using inv(4) by linarith
  have nxt: "?P (Suc k) = vec3f_add_f32 \<lparr>vx = x, vy = 1 / 4, vz = 0\<rparr>
      (vec3f_scale_f32 \<lparr>vx = - 1, vy = 1 / 2 ^ 40, vz = 0\<rparr> (march_step_f32 \<lparr>vx = x, vy = 1 / 4, vz = 0\<rparr>))"
    unfolding march_pos_f32.simps Let_def pk by (rule refl)
  define p' where "p' = vec3f_add_f32 \<lparr>vx = x, vy = 1 / 4, vz = 0\<rparr>
      (vec3f_scale_f32 \<lparr>vx = - 1, vy = 1 / 2 ^ 40, vz = 0\<rparr> (march_step_f32 \<lparr>vx = x, vy = 1 / 4, vz = 0\<rparr>))"
  have st: "vy p' = 1 / 4" "vz p' = 0" "0 \<le> vx p'" "vx p' \<le> x - 5 / 512"
    unfolding p'_def by (rule march_f32_step[OF x38 x32])+
  have "real (Suc k) * (5 / 512) = real k * (5 / 512) + 5 / 512" by (simp add: algebra_simps)
  then have "vx p' \<le> 3 / 2 - real (Suc k) * (5 / 512)" using st(4) inv(4) by linarith
  with st(1,2,3) show ?case unfolding nxt p'_def[symmetric] by blast
qed

lemma march_f32_hits:
  "\<exists>k<128. signed_distance_f32
      (march_pos_f32 \<lparr>vx = 3 / 2, vy = 1 / 4, vz = 0\<rparr> \<lparr>vx = - 1, vy = 1 / 2 ^ 40, vz = 0\<rparr> k) < 0"
proof (rule ccontr)
  let ?P = "march_pos_f32 \<lparr>vx = 3 / 2, vy = 1 / 4, vz = 0\<rparr> \<lparr>vx = - 1, vy = 1 / 2 ^ 40, vz = 0\<rparr>"
  assume "\<not> (\<exists>k<128. signed_distance_f32 (?P k) < 0)"
  then have no: "\<And>k. k < 128 \<Longrightarrow> \<not> signed_distance_f32 (?P k) < 0" by blast
  then have "\<forall>j<116. \<not> signed_distance_f32 (?P j) < 0" by simp
  from march_f32_invariant[OF this]
  have inv: "vy (?P 116) = 1 / 4" "vz (?P 116) = 0" "0 \<le> vx (?P 116)" "vx (?P 116) \<le> 3 / 8"
    by simp_all
  have "?P 116 = \<lparr>vx = vx (?P 116), vy = 1 / 4, vz = 0\<rparr>" using inv(1,2) by simp
  then have "signed_distance_f32 (?P 116) < 0"
    using sd_f32_inside[OF inv(3,4)] by simp
  with no[of 116] show False by simp
qed

lemma norm_f32_dir: "vec3f_norm_f32 \<lparr>vx = - 1, vy = 1 / 2 ^ 40, vz = 0\<rparr> = 1"
proof (rule vec3f_norm_f32_I[where a = 1 and b = "1 / 2 ^ 80" and c = 0 and ?s1.0 = 1 and s = 1])
  show "to_float (vy \<lparr>vx = - 1, vy = 1 / 2 ^ 40, vz = 0\<rparr> * vy \<lparr>vx = - 1, vy = 1 / 2 ^ 40, vz = 0\<rparr>)
      = 1 / 2 ^ 80"
    by (rule to_float_exact_eq[of _ _ 80 1]) simp_all
  have "to_float (1 + 1 / 2 ^ 80) = of_int 8388608 / 2 ^ 23"
    by (intro to_float_near) simp_all
  then show "to_float (1 + 1 / 2 ^ 80) = 1" by simp
qed simp_all

lemma sphere_trace_f32_skew:
  defines "ro \<equiv> \<lparr>vx = 3 / 2, vy = 1 / 4, vz = 0 :: real\<rparr>"
  defines "rd \<equiv> \<lparr>vx = - 1, vy = 1 / 2 ^ 40, vz = 0 :: real\<rparr>"
  shows "\<exists>k. 0 < k \<and> k < 128 \<and> sphere_trace_f32 ro rd = Some (march_pos_f32 ro rd k) \<and>
             vy (march_pos_f32 ro rd k) = 1 / 4 \<and> vx (march_pos_f32 ro rd k) < 3 / 2"
proof -
  let ?H = "\<lambda>k. signed_distance_f32 (march_pos_f32 ro rd k) < 0"
  define k0 where "k0 = (LEAST k. ?H k)"
  have ex: "\<exists>k<128. ?H k" unfolding ro_def rd_def by (rule march_f32_hits)
  then have hit: "?H k0" unfolding k0_def by (auto intro: LeastI)
  have before: "\<forall>j<k0. \<not> ?H j" unfolding k0_def using not_less_Least by blast
  have lt: "k0 < 128"
  proof -
    from ex obtain k where "k < 128" "?H k" by blast
    then have "k0 \<le> k" unfolding k0_def by (intro Least_le)
    with \<open>k < 128\<close> show ?thesis by simp
  qed
  have r: "sphere_trace_f32 ro rd = Some (march_pos_f32 ro rd k0)"
    using ex by (simp add: sphere_trace_f32_char k0_def)
  have "k0 \<noteq> 0"
  proof
    assume "k0 = 0"
    with hit have "signed_distance_f32 ro < 0" by simp
    with sd_f32_start show False by (simp add: ro_def)
  qed
  then have k0: "0 < k0" by simp
  then have "1 \<le> real k0" by simp
  then have k: "5 / 512 \<le> real k0 * (5 / 512)" by simp
  from march_f32_invariant[OF before[unfolded ro_def rd_def]]
  have inv: "vy (march_pos_f32 ro rd k0) = 1 / 4" "vx (march_pos_f32 ro rd k0) \<le> 3 / 2 - real k0 * (5 / 512)"
    by (simp_all add: ro_def rd_def)
  from inv(2) k have "vx (march_pos_f32 ro rd k0) < 3 / 2" by linarith
  with k0 lt r inv(1) show ?thesis by blast
qed

subsection \<open>The distance of a hit from the exact ray\<close>

text \<open>
  One step computes \<open>fl (a + fl (D * s))\<close> in each coordinate. Both roundings have a
  relative error of at most \<open>2 ^ -24\<close> (and an absolute one of at most \<open>2 ^ -150\<close> in the
  subnormal range), so that after \<open>k\<close> steps the position differs from the point of the
  ray with parameter the sum of the steps by at most the sum of these errors.
\<close>

lemma march_step_f32_pos: "0 < march_step_f32 pos"
proof -
  have "(0 :: real) < 10737418 / 2 ^ 30" by simp
  then show ?thesis using march_step_f32_lower[of pos] by linarith
qed

lemma march_len_f32_nonneg: "0 \<le> march_len_f32 orig dir k"
proof (induction k)
  case 0
  show ?case by simp
next
  case (Suc k)
  then show ?case using march_step_f32_pos[of "march_pos_f32 orig dir k"] by simp
qed

lemma step_deviation:
  assumes "0 \<le> s"
  shows "\<bar>to_float (a + to_float (D * s)) - (q + s * D)\<bar>
           \<le> \<bar>a - q\<bar> + (\<bar>to_float (a + to_float (D * s))\<bar> + \<bar>D\<bar> * s) / 2 ^ 24 + 1 / 2 ^ 149"
proof -
  define y where "y = to_float (D * s)"
  define a' where "a' = to_float (a + y)"
  have e1: "\<bar>a' - (a + y)\<bar> \<le> \<bar>a'\<bar> / 2 ^ 24 + 1 / 2 ^ 150"
    unfolding a'_def by (rule to_float_rel_error)
  have "\<bar>D * s\<bar> = \<bar>D\<bar> * s" using assms by (simp add: abs_mult)
  with to_float_rel_error_arg[of "D * s"]
  have e2: "\<bar>y - D * s\<bar> \<le> \<bar>D\<bar> * s / 2 ^ 24 + 1 / 2 ^ 150" by (simp add: y_def)
  have "a' - (q + s * D) = (a' - (a + y)) + (y - D * s) + (a - q)" by (simp add: algebra_simps)
  then have "\<bar>a' - (q + s * D)\<bar> \<le> \<bar>a' - (a + y)\<bar> + \<bar>y - D * s\<bar> + \<bar>a - q\<bar>" by linarith
  also have "\<dots> \<le> (\<bar>a'\<bar> / 2 ^ 24 + 1 / 2 ^ 150) + (\<bar>D\<bar> * s / 2 ^ 24 + 1 / 2 ^ 150) + \<bar>a - q\<bar>"
    using e1 e2 by linarith
  also have "\<dots> = \<bar>a - q\<bar> + (\<bar>a'\<bar> + \<bar>D\<bar> * s) / 2 ^ 24 + 1 / 2 ^ 149"
    by (simp add: add_divide_distrib)
  finally show ?thesis unfolding a'_def y_def .
qed

lemma march_f32_deviation:
  fixes c :: "vec3f \<Rightarrow> real"
  assumes add: "\<And>a b. c (vec3f_add_f32 a b) = to_float (c a + c b)"
    and scale: "\<And>v s. c (vec3f_scale_f32 v s) = to_float (c v * s)"
  shows "\<bar>c (march_pos_f32 orig dir k) - (c orig + march_len_f32 orig dir k * c dir)\<bar>
           \<le> ((\<Sum>j<k. \<bar>c (march_pos_f32 orig dir (Suc j))\<bar>) + \<bar>c dir\<bar> * march_len_f32 orig dir k) / 2 ^ 24
              + real k / 2 ^ 149"
proof (induction k)
  case 0
  show ?case by simp
next
  case (Suc k)
  define P where "P = march_pos_f32 orig dir"
  define T where "T = march_len_f32 orig dir"
  define s where "s = march_step_f32 (P k)"
  define S where "S = (\<Sum>j<k. \<bar>c (P (Suc j))\<bar>)"
  have s: "0 \<le> s" unfolding s_def using march_step_f32_pos[of "P k"] by simp
  have nxt: "c (P (Suc k)) = to_float (c (P k) + to_float (c dir * s))"
    by (simp add: P_def Let_def add scale s_def)
  have T: "T (Suc k) = T k + s" by (simp add: T_def s_def P_def)
  have IH: "\<bar>c (P k) - (c orig + T k * c dir)\<bar> \<le> (S + \<bar>c dir\<bar> * T k) / 2 ^ 24 + real k / 2 ^ 149"
    using Suc.IH by (simp add: P_def T_def S_def)
  have "\<bar>c (P (Suc k)) - ((c orig + T k * c dir) + s * c dir)\<bar>
      \<le> \<bar>c (P k) - (c orig + T k * c dir)\<bar> + (\<bar>c (P (Suc k))\<bar> + \<bar>c dir\<bar> * s) / 2 ^ 24 + 1 / 2 ^ 149"
    unfolding nxt by (rule step_deviation[OF s])
  also have "\<dots> \<le> ((S + \<bar>c dir\<bar> * T k) / 2 ^ 24 + real k / 2 ^ 149)
      + (\<bar>c (P (Suc k))\<bar> + \<bar>c dir\<bar> * s) / 2 ^ 24 + 1 / 2 ^ 149"
    using IH by linarith
  also have "\<dots> = ((S + \<bar>c (P (Suc k))\<bar>) + \<bar>c dir\<bar> * T (Suc k)) / 2 ^ 24 + real (Suc k) / 2 ^ 149"
    by (simp add: T add_divide_distrib algebra_simps)
  finally have "\<bar>c (P (Suc k)) - (c orig + T (Suc k) * c dir)\<bar>
      \<le> ((S + \<bar>c (P (Suc k))\<bar>) + \<bar>c dir\<bar> * T (Suc k)) / 2 ^ 24 + real (Suc k) / 2 ^ 149"
    by (simp add: T algebra_simps)
  moreover have "(\<Sum>j<Suc k. \<bar>c (P (Suc j))\<bar>) = S + \<bar>c (P (Suc k))\<bar>" by (simp add: S_def)
  ultimately show ?case unfolding P_def T_def by simp
qed

lemma march_f32_deviation_x:
  "\<bar>vx (march_pos_f32 orig dir k) - (vx orig + march_len_f32 orig dir k * vx dir)\<bar>
     \<le> ((\<Sum>j<k. \<bar>vx (march_pos_f32 orig dir (Suc j))\<bar>) + \<bar>vx dir\<bar> * march_len_f32 orig dir k) / 2 ^ 24
        + real k / 2 ^ 149"
  by (rule march_f32_deviation) (simp_all add: vec3f_add_f32_def vec3f_scale_f32_def)

lemma march_f32_deviation_y:
  "\<bar>vy (march_pos_f32 orig dir k) - (vy orig + march_len_f32 orig dir k * vy dir)\<bar>
     \<le> ((\<Sum>j<k. \<bar>vy (march_pos_f32 orig dir (Suc j))\<bar>) + \<bar>vy dir\<bar> * march_len_f32 orig dir k) / 2 ^ 24
        + real k / 2 ^ 149"
  by (rule march_f32_deviation) (simp_all add: vec3f_add_f32_def vec3f_scale_f32_def)

lemma march_f32_deviation_z:
  "\<bar>vz (march_pos_f32 orig dir k) - (vz orig + march_len_f32 orig dir k * vz dir)\<bar>
     \<le> ((\<Sum>j<k. \<bar>vz (march_pos_f32 orig dir (Suc j))\<bar>) + \<bar>vz dir\<bar> * march_len_f32 orig dir k) / 2 ^ 24
        + real k / 2 ^ 149"
  by (rule march_f32_deviation) (simp_all add: vec3f_add_f32_def vec3f_scale_f32_def)

text \<open>
  Claim C10, as it holds of the program in binary32. A hit position \<open>p\<close> is the position
  reached after \<open>k < 128\<close> steps \<open>pos \<leftarrow> fl (pos + fl (dir * s))\<close>, each of size
  \<open>s = max (fl (d * 0.1f)) 0.01f\<close>, none of the earlier positions having a negative
  field, and the field is strictly negative at \<open>p\<close>. With \<open>t \<ge> 0\<close> the sum of the \<open>k\<close> step
  sizes (zero when the origin itself is inside), every coordinate of \<open>p\<close> differs from
  that of \<open>orig + t * dir\<close> by at most
  \<open>2 ^ -24 * (\<Sum> of \<bar>coordinate\<bar> over the positions 1..k + \<bar>dir coordinate\<bar> * t) + k * 2 ^ -149\<close>,
  the accumulated rounding of the two operations of a step: \<open>p\<close> lies on the traced ray
  up to rounding. The origin is taken with coordinates of magnitude at most \<open>2 ^ 20\<close>
  and the direction with coordinates of magnitude at most \<open>1\<close>, for which no operation
  of the walk overflows.
\<close>

theorem sphere_trace_f32_hit_near_ray:
  assumes "\<bar>vx orig\<bar> \<le> 2 ^ 20" "\<bar>vy orig\<bar> \<le> 2 ^ 20" "\<bar>vz orig\<bar> \<le> 2 ^ 20"
    and "\<bar>vx dir\<bar> \<le> 1" "\<bar>vy dir\<bar> \<le> 1" "\<bar>vz dir\<bar> \<le> 1"
    and "sphere_trace_f32 orig dir = Some p"
  shows "signed_distance_f32 p < 0 \<and>
         (\<exists>k<128. p = march_pos_f32 orig dir k \<and>
            (\<forall>j<k. \<not> signed_distance_f32 (march_pos_f32 orig dir j) < 0) \<and>
            0 \<le> march_len_f32 orig dir k \<and>
            \<bar>vx p - (vx orig + march_len_f32 orig dir k * vx dir)\<bar>
              \<le> ((\<Sum>j<k. \<bar>vx (march_pos_f32 orig dir (Suc j))\<bar>) + \<bar>vx dir\<bar> * march_len_f32 orig dir k) / 2 ^ 24
                 + real k / 2 ^ 149 \<and>
            \<bar>vy p - (vy orig + march_len_f32 orig dir k * vy dir)\<bar>
              \<le> ((\<Sum>j<k. \<bar>vy (march_pos_f32 orig dir (Suc j))\<bar>) + \<bar>vy dir\<bar> * march_len_f32 orig dir k) / 2 ^ 24
                 + real k / 2 ^ 149 \<and>
            \<bar>vz p - (vz orig + march_len_f32 orig dir k * vz dir)\<bar>
              \<le> ((\<Sum>j<k. \<bar>vz (march_pos_f32 orig dir (Suc j))\<bar>) + \<bar>vz dir\<bar> * march_len_f32 orig dir k) / 2 ^ 24
                 + real k / 2 ^ 149)"
proof -
  let ?H = "\<lambda>k. signed_distance_f32 (march_pos_f32 orig dir k) < 0"
  define k0 where "k0 = (LEAST k. ?H k)"
  from assms(7) have ex: "\<exists>k<128. ?H k" and p: "p = march_pos_f32 orig dir k0"
    by (auto simp: sphere_trace_f32_char k0_def split: if_splits)
  from ex have hit: "?H k0" unfolding k0_def by (auto intro: LeastI)
  have before: "\<forall>j<k0. \<not> ?H j" unfolding k0_def using not_less_Least by blast
  have lt: "k0 < 128"
  proof -
    from ex obtain k where "k < 128" "?H k" by blast
    then have "k0 \<le> k" unfolding k0_def by (intro Least_le)
    with \<open>k < 128\<close> show ?thesis by simp
  qed
  show ?thesis
  proof (intro conjI exI[of _ k0])
    show "signed_distance_f32 p < 0" using hit p by simp
    show "k0 < 128" by (rule lt)
    show "p = march_pos_f32 orig dir k0" by (rule p)
    show "\<forall>j<k0. \<not> ?H j" by (rule before)
    show "0 \<le> march_len_f32 orig dir k0" by (rule march_len_f32_nonneg)
    show "\<bar>vx p - (vx orig + march_len_f32 orig dir k0 * vx dir)\<bar>
              \<le> ((\<Sum>j<k0. \<bar>vx (march_pos_f32 orig dir (Suc j))\<bar>) + \<bar>vx dir\<bar> * march_len_f32 orig dir k0) / 2 ^ 24
                 + real k0 / 2 ^ 149"
      unfolding p by (rule march_f32_deviation_x)
    show "\<bar>vy p - (vy orig + march_len_f32 orig dir k0 * vy dir)\<bar>
              \<le> ((\<Sum>j<k0. \<bar>vy (march_pos_f32 orig dir (Suc j))\<bar>) + \<bar>vy dir\<bar> * march_len_f32 orig dir k0) / 2 ^ 24
                 + real k0 / 2 ^ 149"
      unfolding p by (rule march_f32_deviation_y)
    show "\<bar>vz p - (vz orig + march_len_f32 orig dir k0 * vz dir)\<bar>
              \<le> ((\<Sum>j<k0. \<bar>vz (march_pos_f32 orig dir (Suc j))\<bar>) + \<bar>vz dir\<bar> * march_len_f32 orig dir k0) / 2 ^ 24
                 + real k0 / 2 ^ 149"
      unfolding p by (rule march_f32_deviation_z)
  qed
qed

text \<open>
  The ray from \<open>(3/2, 1/4, 0)\<close> in the direction \<open>(-1, 2 ^ -40, 0)\<close>: it hits, the hit is
  not the origin of the ray (at least one step is taken), and its first coordinate is
  within the bound of \<open>3/2 - t\<close>.
\<close>

theorem sphere_trace_f32_hit_near_ray_witness:
  "\<bar>vx \<lparr>vx = 3 / 2, vy = 1 / 4, vz = 0\<rparr>\<bar> \<le> 2 ^ 20 \<and>
   \<bar>vy \<lparr>vx = 3 / 2, vy = 1 / 4, vz = 0\<rparr>\<bar> \<le> 2 ^ 20 \<and>
   \<bar>vz \<lparr>vx = 3 / 2, vy = 1 / 4, vz = 0\<rparr>\<bar> \<le> 2 ^ 20 \<and>
   \<bar>vx \<lparr>vx = - 1, vy = 1 / 2 ^ 40, vz = 0\<rparr>\<bar> \<le> 1 \<and>
   \<bar>vy \<lparr>vx = - 1, vy = 1 / 2 ^ 40, vz = 0\<rparr>\<bar> \<le> 1 \<and>
   \<bar>vz \<lparr>vx = - 1, vy = 1 / 2 ^ 40, vz = 0\<rparr>\<bar> \<le> 1 \<and>
   (\<exists>p. sphere_trace_f32 \<lparr>vx = 3 / 2, vy = 1 / 4, vz = 0\<rparr> \<lparr>vx = - 1, vy = 1 / 2 ^ 40, vz = 0\<rparr> = Some p \<and>
        p \<noteq> \<lparr>vx = 3 / 2, vy = 1 / 4, vz = 0\<rparr> \<and>
        signed_distance_f32 p < 0 \<and>
        (\<exists>k<128. p = march_pos_f32 \<lparr>vx = 3 / 2, vy = 1 / 4, vz = 0\<rparr> \<lparr>vx = - 1, vy = 1 / 2 ^ 40, vz = 0\<rparr> k \<and>
           \<bar>vx p - (3 / 2 + march_len_f32 \<lparr>vx = 3 / 2, vy = 1 / 4, vz = 0\<rparr>
                                \<lparr>vx = - 1, vy = 1 / 2 ^ 40, vz = 0\<rparr> k * (- 1))\<bar>
             \<le> ((\<Sum>j<k. \<bar>vx (march_pos_f32 \<lparr>vx = 3 / 2, vy = 1 / 4, vz = 0\<rparr>
                                  \<lparr>vx = - 1, vy = 1 / 2 ^ 40, vz = 0\<rparr> (Suc j))\<bar>)
                  + 1 * march_len_f32 \<lparr>vx = 3 / 2, vy = 1 / 4, vz = 0\<rparr>
                          \<lparr>vx = - 1, vy = 1 / 2 ^ 40, vz = 0\<rparr> k) / 2 ^ 24
                + real k / 2 ^ 149))"
proof -
  define ro where "ro = \<lparr>vx = 3 / 2, vy = 1 / 4, vz = 0 :: real\<rparr>"
  define rd where "rd = \<lparr>vx = - 1, vy = 1 / 2 ^ 40, vz = 0 :: real\<rparr>"
  have h: "\<bar>vx ro\<bar> \<le> 2 ^ 20" "\<bar>vy ro\<bar> \<le> 2 ^ 20" "\<bar>vz ro\<bar> \<le> 2 ^ 20"
    "\<bar>vx rd\<bar> \<le> 1" "\<bar>vy rd\<bar> \<le> 1" "\<bar>vz rd\<bar> \<le> 1"
    by (simp_all add: ro_def rd_def)
  from sphere_trace_f32_skew obtain k0 where
    k0: "sphere_trace_f32 ro rd = Some (march_pos_f32 ro rd k0)" "vx (march_pos_f32 ro rd k0) < 3 / 2"
    unfolding ro_def rd_def by blast
  define p where "p = march_pos_f32 ro rd k0"
  have ne: "p \<noteq> ro" using k0(2) by (auto simp: p_def ro_def)
  have tr: "sphere_trace_f32 ro rd = Some p" using k0(1) by (simp add: p_def)
  from sphere_trace_f32_hit_near_ray[OF h tr]
  have sd: "signed_distance_f32 p < 0"
    and "\<exists>k<128. p = march_pos_f32 ro rd k \<and>
           \<bar>vx p - (vx ro + march_len_f32 ro rd k * vx rd)\<bar>
             \<le> ((\<Sum>j<k. \<bar>vx (march_pos_f32 ro rd (Suc j))\<bar>) + \<bar>vx rd\<bar> * march_len_f32 ro rd k) / 2 ^ 24
                + real k / 2 ^ 149"
    by blast+
  then obtain k where k: "k < 128" "p = march_pos_f32 ro rd k"
    "\<bar>vx p - (vx ro + march_len_f32 ro rd k * vx rd)\<bar>
             \<le> ((\<Sum>j<k. \<bar>vx (march_pos_f32 ro rd (Suc j))\<bar>) + \<bar>vx rd\<bar> * march_len_f32 ro rd k) / 2 ^ 24
                + real k / 2 ^ 149"
    by blast
  have vo: "vx ro = 3 / 2" and vd: "vx rd = - 1" by (simp_all add: ro_def rd_def)
  have am: "\<bar>- 1 :: real\<bar> = 1" by simp
  from k(3) have k3: "\<bar>vx p - (3 / 2 + march_len_f32 ro rd k * (- 1))\<bar>
             \<le> ((\<Sum>j<k. \<bar>vx (march_pos_f32 ro rd (Suc j))\<bar>) + 1 * march_len_f32 ro rd k) / 2 ^ 24
                + real k / 2 ^ 149"
    unfolding vo vd am .
  have "\<exists>p. sphere_trace_f32 ro rd = Some p \<and> p \<noteq> ro \<and> signed_distance_f32 p < 0 \<and>
        (\<exists>k<128. p = march_pos_f32 ro rd k \<and>
           \<bar>vx p - (3 / 2 + march_len_f32 ro rd k * (- 1))\<bar>
             \<le> ((\<Sum>j<k. \<bar>vx (march_pos_f32 ro rd (Suc j))\<bar>) + 1 * march_len_f32 ro rd k) / 2 ^ 24
                + real k / 2 ^ 149)"
    using tr ne sd k(1,2) k3 by blast
  with h show ?thesis unfolding ro_def rd_def by blast
qed

text \<open>
  Exactly on the ray a hit need not lie. The direction \<open>(-1, 2 ^ -40, 0)\<close> is a fixed
  point of the normalisation (its length is computed as \<open>1\<close>); the ray from
  \<open>(3/2, 1/4, 0)\<close> in that direction hits at a position whose second coordinate is still
  \<open>1/4\<close> and whose first coordinate is less than \<open>3/2\<close>, which is \<open>orig + t * dir\<close> for no
  real \<open>t\<close>.
\<close>

theorem sphere_trace_f32_off_ray:
  "vec3f_normalize_f32 \<lparr>vx = - 1, vy = 1 / 2 ^ 40, vz = 0\<rparr> = \<lparr>vx = - 1, vy = 1 / 2 ^ 40, vz = 0\<rparr> \<and>
   (\<exists>p. sphere_trace_f32 \<lparr>vx = 3 / 2, vy = 1 / 4, vz = 0\<rparr> \<lparr>vx = - 1, vy = 1 / 2 ^ 40, vz = 0\<rparr> = Some p \<and>
        (\<forall>t. p \<noteq> vec3f_add \<lparr>vx = 3 / 2, vy = 1 / 4, vz = 0\<rparr>
                        (vec3f_scale \<lparr>vx = - 1, vy = 1 / 2 ^ 40, vz = 0\<rparr> t)))"
proof
  have f: "to_float (- 1) = - 1" "to_float (1 / 2 ^ 40) = 1 / 2 ^ 40"
    using to_float_minus[of 1] to_float_dyadic[of 1 40] by simp_all
  show "vec3f_normalize_f32 \<lparr>vx = - 1, vy = 1 / 2 ^ 40, vz = 0\<rparr> = \<lparr>vx = - 1, vy = 1 / 2 ^ 40, vz = 0\<rparr>"
  proof (rule normalize_f32_unit)
    show "to_float (vx \<lparr>vx = - 1, vy = 1 / 2 ^ 40, vz = 0\<rparr>) = vx \<lparr>vx = - 1, vy = 1 / 2 ^ 40, vz = 0\<rparr>"
      using f(1) by simp
    show "to_float (vy \<lparr>vx = - 1, vy = 1 / 2 ^ 40, vz = 0\<rparr>) = vy \<lparr>vx = - 1, vy = 1 / 2 ^ 40, vz = 0\<rparr>"
      using f(2) by simp
    show "vec3f_norm_f32 \<lparr>vx = - 1, vy = 1 / 2 ^ 40, vz = 0\<rparr> = 1" by (rule norm_f32_dir)
  qed simp
next
  define ro where "ro = \<lparr>vx = 3 / 2, vy = 1 / 4, vz = 0 :: real\<rparr>"
  define rd where "rd = \<lparr>vx = - 1, vy = 1 / 2 ^ 40, vz = 0 :: real\<rparr>"
  from sphere_trace_f32_skew obtain k where
    k: "sphere_trace_f32 ro rd = Some (march_pos_f32 ro rd k)"
       "vy (march_pos_f32 ro rd k) = 1 / 4" "vx (march_pos_f32 ro rd k) < 3 / 2"
    unfolding ro_def rd_def by blast
  have off: "march_pos_f32 ro rd k \<noteq> vec3f_add ro (vec3f_scale rd t)" for t
  proof
    assume e: "march_pos_f32 ro rd k = vec3f_add ro (vec3f_scale rd t)"
    then have "vy (march_pos_f32 ro rd k) = 1 / 4 + 1 / 2 ^ 40 * t"
      by (simp add: vec3f_add_def vec3f_scale_def ro_def rd_def)
    with k(2) have t: "t = 0" by simp
    from e have "vx (march_pos_f32 ro rd k) = 3 / 2 + - 1 * t"
      by (simp add: vec3f_add_def vec3f_scale_def ro_def rd_def)
    with t k(3) show False by simp
  qed
  have "\<exists>p. sphere_trace_f32 ro rd = Some p \<and> (\<forall>t. p \<noteq> vec3f_add ro (vec3f_scale rd t))"
    using k(1) off by blast
  then show "\<exists>p. sphere_trace_f32 \<lparr>vx = 3 / 2, vy = 1 / 4, vz = 0\<rparr> \<lparr>vx = - 1, vy = 1 / 2 ^ 40, vz = 0\<rparr> = Some p \<and>
        (\<forall>t. p \<noteq> vec3f_add \<lparr>vx = 3 / 2, vy = 1 / 4, vz = 0\<rparr>
                        (vec3f_scale \<lparr>vx = - 1, vy = 1 / 2 ^ 40, vz = 0\<rparr> t))"
    unfolding ro_def rd_def .
qed

end
